theory Spec2Isabelle
  imports Main "HOL-Library.Product_Lexorder"
begin

section \<open>Data model\<close>

text \<open>A cell is a coordinate pair (row, column) of Python integers.\<close>

type_synonym cell = "int \<times> int"

text \<open>Class \<open>Sentence\<close>: a set of board cells and the number of them that are mines.
  Python compares two sentences by \<open>__eq__\<close> (equal cell sets and equal counts), which is
  equality of records here.\<close>

record sentence =
  cells :: "cell set"
  count :: int

text \<open>Class \<open>MinesweeperAI\<close>.\<close>

record ai =
  height :: int
  width :: int
  moves_made :: "cell set"
  mines :: "cell set"
  safes :: "cell set"
  knowledge :: "sentence list"

text \<open>\<open>MinesweeperAI.__init__\<close>.\<close>

definition init_ai :: "int \<Rightarrow> int \<Rightarrow> ai" where
  "init_ai h w = \<lparr>height = h, width = w, moves_made = {}, mines = {}, safes = {},
     knowledge = []\<rparr>"

section \<open>Sentence operations\<close>

definition known_mines :: "sentence \<Rightarrow> cell set" where
  "known_mines s = (if int (card (cells s)) = count s then cells s else {})"

definition known_safes :: "sentence \<Rightarrow> cell set" where
  "known_safes s = (if count s = 0 then cells s else {})"

definition sentence_mark_mine :: "sentence \<Rightarrow> cell \<Rightarrow> sentence" where
  "sentence_mark_mine s c =
     (if c \<in> cells s then s\<lparr>cells := cells s - {c}, count := count s - 1\<rparr> else s)"

definition sentence_mark_safe :: "sentence \<Rightarrow> cell \<Rightarrow> sentence" where
  "sentence_mark_safe s c = (if c \<in> cells s then s\<lparr>cells := cells s - {c}\<rparr> else s)"

section \<open>Knowledge base operations\<close>

definition mark_mine :: "ai \<Rightarrow> cell \<Rightarrow> ai" where
  "mark_mine a c =
     a\<lparr>mines := insert c (mines a),
       knowledge := map (\<lambda>s. sentence_mark_mine s c) (knowledge a)\<rparr>"

definition mark_safe :: "ai \<Rightarrow> cell \<Rightarrow> ai" where
  "mark_safe a c =
     a\<lparr>safes := insert c (safes a),
       knowledge := map (\<lambda>s. sentence_mark_safe s c) (knowledge a)\<rparr>"

text \<open>The body of the two nested \<open>for\<close> loops of \<open>add_knowledge\<close> that visit the 3x3 block
  around the probed cell; the accumulator is \<open>(cells_set, count)\<close>.\<close>

definition scan_cell :: "ai \<Rightarrow> cell \<Rightarrow> cell \<Rightarrow> cell set \<times> int \<Rightarrow> cell set \<times> int" where
  "scan_cell a c rc acc =
     (if rc \<noteq> c \<and> 0 \<le> fst rc \<and> fst rc < height a \<and> 0 \<le> snd rc \<and> snd rc < width a
      then (if rc \<notin> moves_made a \<and> rc \<notin> safes a \<and> rc \<notin> mines a
            then (insert rc (fst acc), snd acc)
            else if rc \<in> mines a then (fst acc, snd acc - 1)
            else acc)
      else acc)"

definition scan_neighbours :: "ai \<Rightarrow> cell \<Rightarrow> int \<Rightarrow> cell set \<times> int" where
  "scan_neighbours a c n =
     fold (\<lambda>row. fold (\<lambda>col. scan_cell a c (row, col)) [snd c - 1 .. snd c + 1])
       [fst c - 1 .. fst c + 1] ({}, n)"

text \<open>First \<open>for\<close> loop of the \<open>while\<close> body. Python iterates over a copy of the cell set in
  an unspecified order; the model visits the cells in increasing order, and the lemmas
  \<open>fold_mark_safe_new\<close> and \<open>fold_mark_mine_new\<close> below show that the outcome depends on
  the set of the visited cells only. The flag is \<open>loop_stop\<close>.\<close>

definition mark_safe_new :: "cell \<Rightarrow> ai \<times> bool \<Rightarrow> ai \<times> bool" where
  "mark_safe_new c st = (if c \<notin> safes (fst st) then (mark_safe (fst st) c, True) else st)"

definition mark_mine_new :: "cell \<Rightarrow> ai \<times> bool \<Rightarrow> ai \<times> bool" where
  "mark_mine_new c st = (if c \<notin> mines (fst st) then (mark_mine (fst st) c, True) else st)"

definition conclude_at :: "nat \<Rightarrow> ai \<times> bool \<Rightarrow> ai \<times> bool" where
  "conclude_at i st =
     (let safe_cells = known_safes (knowledge (fst st) ! i);
          st1 = (if safe_cells \<noteq> {} then fold mark_safe_new (sorted_list_of_set safe_cells) st
                 else st);
          mine_cells = known_mines (knowledge (fst st1) ! i)
      in if mine_cells \<noteq> {} then fold mark_mine_new (sorted_list_of_set mine_cells) st1
         else st1)"

definition conclude_pass :: "ai \<Rightarrow> ai \<times> bool" where
  "conclude_pass a = fold conclude_at [0 ..< length (knowledge a)] (a, False)"

text \<open>Second part of the \<open>while\<close> body: the two nested \<open>enumerate\<close> loops. A Python list
  iterator re-reads the length of the list at every step, so both loops also visit the
  sentences appended while they run.\<close>

definition derived :: "sentence \<Rightarrow> sentence \<Rightarrow> sentence" where
  "derived s1 s2 = \<lparr>cells = cells s2 - cells s1, count = count s2 - count s1\<rparr>"

partial_function (option) resolve_inner ::
  "nat \<Rightarrow> nat \<Rightarrow> sentence list \<Rightarrow> bool \<Rightarrow> (sentence list \<times> bool) option" where
  [code]: "resolve_inner i j kn f =
     (if j < length kn then
        (if i = j then resolve_inner i (j + 1) kn f
         else if cells (kn ! i) \<subseteq> cells (kn ! j) \<and> card (cells (kn ! j) - cells (kn ! i)) \<noteq> 0
                 \<and> derived (kn ! i) (kn ! j) \<notin> set kn
              then resolve_inner i (j + 1) (kn @ [derived (kn ! i) (kn ! j)]) True
              else resolve_inner i (j + 1) kn f)
      else Some (kn, f))"

partial_function (option) resolve_outer ::
  "nat \<Rightarrow> sentence list \<Rightarrow> bool \<Rightarrow> (sentence list \<times> bool) option" where
  [code]: "resolve_outer i kn f =
     (if i < length kn then
        Option.bind (resolve_inner i 0 kn f) (\<lambda>r. resolve_outer (i + 1) (fst r) (snd r))
      else Some (kn, f))"

text \<open>The \<open>while True\<close> loop.\<close>

partial_function (option) infer :: "ai \<Rightarrow> ai option" where
  [code]: "infer a =
     (let st = conclude_pass a in
      Option.bind (resolve_outer 0 (knowledge (fst st)) (snd st))
        (\<lambda>r. if snd r then infer ((fst st)\<lparr>knowledge := fst r\<rparr>)
              else Some ((fst st)\<lparr>knowledge := fst r\<rparr>)))"

definition add_knowledge :: "ai \<Rightarrow> cell \<Rightarrow> int \<Rightarrow> ai option" where
  "add_knowledge a c n =
     (let a1 = a\<lparr>moves_made := insert c (moves_made a)\<rparr>;
          a2 = mark_safe a1 c;
          new = scan_neighbours a2 c n;
          a3 = a2\<lparr>knowledge := knowledge a2 @ [\<lparr>cells = fst new, count = snd new\<rparr>]\<rparr>
      in infer a3)"

text \<open>\<open>make_safe_move\<close>: the \<open>for\<close> loop over \<open>self.safes\<close>, for a given enumeration of that
  set, returns the first cell that is not a move already made. Python leaves the order of
  the enumeration unspecified; \<open>make_safe_move\<close> takes the increasing one.\<close>

definition first_unplayed :: "cell list \<Rightarrow> ai \<Rightarrow> cell option" where
  "first_unplayed xs a = find (\<lambda>c. c \<notin> moves_made a) xs"

definition make_safe_move :: "ai \<Rightarrow> cell option" where
  "make_safe_move a = first_unplayed (sorted_list_of_set (safes a)) a"

text \<open>\<open>make_random_move\<close>: the outer loop runs \<open>row\<close> over \<open>range(self.width)\<close> and the inner
  loop runs \<open>col\<close> over \<open>range(self.height)\<close>. The outcome of \<open>random.shuffle\<close> is a parameter.\<close>

definition possible_random_cells :: "ai \<Rightarrow> cell list" where
  "possible_random_cells a =
     [(row, col). row \<leftarrow> [0 .. width a - 1], col \<leftarrow> [0 .. height a - 1],
        (row, col) \<notin> moves_made a \<and> (row, col) \<notin> mines a]"

definition make_random_move :: "(cell list \<Rightarrow> cell list) \<Rightarrow> ai \<Rightarrow> cell option" where
  "make_random_move shuffle a =
     (let cs = possible_random_cells a
      in if length cs = 0 then None else Some (shuffle cs ! 0))"

text \<open>Class \<open>Minesweeper\<close>, as far as \<open>nearby_mines\<close> reads it: \<open>board[i][j]\<close> is true exactly
  for the cells of \<open>game_mines\<close>.\<close>

record game =
  game_height :: int
  game_width :: int
  game_mines :: "cell set"

definition count_cell :: "game \<Rightarrow> cell \<Rightarrow> cell \<Rightarrow> int \<Rightarrow> int" where
  "count_cell g c ij n =
     (if ij = c then n
      else if 0 \<le> fst ij \<and> fst ij < game_height g \<and> 0 \<le> snd ij \<and> snd ij < game_width g
           then (if ij \<in> game_mines g then n + 1 else n)
           else n)"

definition nearby_mines :: "game \<Rightarrow> cell \<Rightarrow> int" where
  "nearby_mines g c =
     fold (\<lambda>i. fold (\<lambda>j. count_cell g c (i, j)) [snd c - 1 .. snd c + 1])
       [fst c - 1 .. fst c + 1] 0"

text \<open>The cells of the grid, and the in-bounds neighbours of a cell.\<close>

definition all_cells :: "int \<Rightarrow> int \<Rightarrow> cell set" where
  "all_cells h w = {0 .. h - 1} \<times> {0 .. w - 1}"

definition neighbours :: "int \<Rightarrow> int \<Rightarrow> cell \<Rightarrow> cell set" where
  "neighbours h w c =
     (({fst c - 1 .. fst c + 1} \<times> {snd c - 1 .. snd c + 1}) - {c}) \<inter> all_cells h w"

section \<open>Driver and invariants\<close>

text \<open>The driver of the game probes cells one after the other and reports, for each, the
  count that \<open>nearby_mines\<close> gives on the board.\<close>

fun observe_all :: "game \<Rightarrow> cell list \<Rightarrow> ai \<Rightarrow> ai option" where
  "observe_all g [] a = Some a"
| "observe_all g (c # cs) a =
     Option.bind (add_knowledge a c (nearby_mines g c)) (observe_all g cs)"

text \<open>The cells that occur in some sentence of the knowledge.\<close>

definition unknown :: "sentence list \<Rightarrow> cell set" where
  "unknown kn = (\<Union>s \<in> set kn. cells s)"

text \<open>A sentence is true of a mine placement \<open>M\<close> when its count is the number of its cells
  that are mines. A knowledge base is consistent with \<open>M\<close> when all its sentences are true
  of \<open>M\<close>, no known safe cell is a mine, every known mine is a mine, and every move made is
  known safe.\<close>

definition true_of :: "cell set \<Rightarrow> sentence \<Rightarrow> bool" where
  "true_of M s \<longleftrightarrow> finite (cells s) \<and> count s = int (card (cells s \<inter> M))"

definition consistent :: "cell set \<Rightarrow> ai \<Rightarrow> bool" where
  "consistent M a \<longleftrightarrow>
     list_all (true_of M) (knowledge a) \<and> safes a \<inter> M = {} \<and> mines a \<subseteq> M \<and>
     moves_made a \<subseteq> safes a"

text \<open>The sentences over the cells \<open>U\<close> that are true of \<open>M\<close>.\<close>

definition allowed :: "cell set \<Rightarrow> cell set \<Rightarrow> sentence set" where
  "allowed M U = (\<lambda>S. \<lparr>cells = S, count = int (card (S \<inter> M))\<rparr>) ` Pow U"

text \<open>One state of the first loop of the \<open>while\<close> body against an earlier one: the grid and
  the moves are the same, no sentence is added or dropped, every sentence is narrowed, the
  flag is raised only together with the removal of a cell from the sentences, and while
  the flag is down nothing has changed.\<close>

definition narrowed :: "sentence list \<Rightarrow> sentence list \<Rightarrow> bool" where
  "narrowed kn kn' \<longleftrightarrow>
     length kn' = length kn \<and>
     (\<forall>k < length kn. cells (kn' ! k) \<subseteq> cells (kn ! k) \<and> count (kn' ! k) \<le> count (kn ! k))"

definition step_ok :: "ai \<times> bool \<Rightarrow> ai \<times> bool \<Rightarrow> bool" where
  "step_ok st st' \<longleftrightarrow>
     height (fst st') = height (fst st) \<and> width (fst st') = width (fst st) \<and>
     moves_made (fst st') = moves_made (fst st) \<and>
     safes (fst st) \<subseteq> safes (fst st') \<and> mines (fst st) \<subseteq> mines (fst st') \<and>
     narrowed (knowledge (fst st)) (knowledge (fst st')) \<and>
     (snd st \<longrightarrow> snd st') \<and> (\<not> snd st' \<longrightarrow> st' = st) \<and>
     (snd st' \<longrightarrow> snd st \<or> unknown (knowledge (fst st')) \<subset> unknown (knowledge (fst st)))"

text \<open>A set of sentences is closed when it holds the difference of any two of its members
  whose cell sets are included one in the other.\<close>

definition closed_under :: "sentence set \<Rightarrow> bool" where
  "closed_under A \<longleftrightarrow> (\<forall>s1 \<in> A. \<forall>s2 \<in> A. cells s1 \<subseteq> cells s2 \<longrightarrow> derived s1 s2 \<in> A)"

text \<open>One state of the second loop against an earlier one: sentences are only appended, the
  flag is raised exactly when one is, an appended sentence was not in the list, and a list
  without repetition stays so.\<close>

definition grows :: "sentence list \<Rightarrow> bool \<Rightarrow> sentence list \<Rightarrow> bool \<Rightarrow> bool" where
  "grows kn f kn' f' \<longleftrightarrow>
     (\<exists>ys. kn' = kn @ ys \<and> (f' \<longleftrightarrow> f \<or> ys \<noteq> []) \<and> (ys \<noteq> [] \<longrightarrow> \<not> set ys \<subseteq> set kn) \<and>
           (distinct kn \<longrightarrow> distinct kn'))"

text \<open>The pair of positions \<open>(i, j)\<close> has nothing left to contribute to the list.\<close>

definition saturated_at :: "sentence list \<Rightarrow> nat \<Rightarrow> nat \<Rightarrow> bool" where
  "saturated_at kn i j \<longleftrightarrow>
     (i \<noteq> j \<and> cells (kn ! i) \<subseteq> cells (kn ! j) \<and> card (cells (kn ! j) - cells (kn ! i)) \<noteq> 0
        \<longrightarrow> derived (kn ! i) (kn ! j) \<in> set kn)"

text \<open>A later knowledge base against an earlier one: same grid and moves, more known cells,
  every earlier sentence still at its position, with fewer cells and a smaller count.\<close>

definition evolves :: "ai \<Rightarrow> ai \<Rightarrow> bool" where
  "evolves a a' \<longleftrightarrow>
     height a' = height a \<and> width a' = width a \<and> moves_made a' = moves_made a \<and>
     safes a \<subseteq> safes a' \<and> mines a \<subseteq> mines a' \<and>
     length (knowledge a) \<le> length (knowledge a') \<and>
     (\<forall>k < length (knowledge a). cells (knowledge a' ! k) \<subseteq> cells (knowledge a ! k) \<and>
                                     count (knowledge a' ! k) \<le> count (knowledge a ! k))"

section \<open>Sentences\<close>

text \<open>C7: a sentence with count 0 yields all its cells as known safe; a sentence whose count
  equals the number of its cells yields all its cells as known mines; in every other case
  both queries yield the empty set. Both are functions of the sentence alone and return
  only a set: the sentence is not changed.\<close>

theorem known_cells_cases:
  "(count s = 0 \<longrightarrow> known_safes s = cells s) \<and>
   (count s = int (card (cells s)) \<longrightarrow> known_mines s = cells s) \<and>
   (count s \<noteq> 0 \<and> count s \<noteq> int (card (cells s)) \<longrightarrow> known_safes s = {} \<and> known_mines s = {})"
  by (auto simp: known_safes_def known_mines_def)

theorem known_cells_cases_witness:
  "known_safes \<lparr>cells = {(0, 1), (1, 1)}, count = 0\<rparr> = {(0, 1), (1, 1)} \<and>
   known_mines \<lparr>cells = {(0, 1), (1, 1)}, count = 2\<rparr> = {(0, 1), (1, 1)} \<and>
   known_safes \<lparr>cells = {(0, 1), (1, 1)}, count = 1\<rparr> = {} \<and>
   known_mines \<lparr>cells = {(0, 1), (1, 1)}, count = 1\<rparr> = {}"
  using known_cells_cases [of "\<lparr>cells = {(0, 1), (1, 1)}, count = 0\<rparr>"]
    known_cells_cases [of "\<lparr>cells = {(0, 1), (1, 1)}, count = 2\<rparr>"]
    known_cells_cases [of "\<lparr>cells = {(0, 1), (1, 1)}, count = 1\<rparr>"]
  by simp

section \<open>Move selection\<close>

text \<open>C8: whatever the order in which the safe cells are enumerated, the safe move is a cell
  of \<open>safes - moves_made\<close> when that set is not empty, and \<open>None\<close> exactly when it is empty.\<close>

theorem safe_move_spec:
  assumes "set xs = safes a"
  shows "(first_unplayed xs a = None \<longleftrightarrow> safes a - moves_made a = {}) \<and>
         (\<forall>c. first_unplayed xs a = Some c \<longrightarrow> c \<in> safes a - moves_made a)"
  using assms by (auto simp: first_unplayed_def find_None_iff find_Some_iff)

theorem safe_move_spec_witness:
  "set [(1, 1)] = safes ((init_ai 8 8)\<lparr>safes := {(1, 1)}, moves_made := {(1, 1)}\<rparr>) \<and>
   first_unplayed [(1, 1)] ((init_ai 8 8)\<lparr>safes := {(1, 1)}, moves_made := {(1, 1)}\<rparr>) = None \<and>
   make_safe_move ((init_ai 8 8)\<lparr>safes := {(1, 1)}, moves_made := {(1, 1)}\<rparr>) = None"
  using safe_move_spec [of "[(1, 1)]" "(init_ai 8 8)\<lparr>safes := {(1, 1)}, moves_made := {(1, 1)}\<rparr>"]
  by (simp add: init_ai_def make_safe_move_def first_unplayed_def)

text \<open>C1: on a grid of height 1 and width 2 with nothing played, the candidates of the
  random move are \<open>(0,0)\<close> and \<open>(1,0)\<close>: the cell \<open>(1,0)\<close> lies outside the grid and the grid
  cell \<open>(0,1)\<close> is never a candidate.\<close>

theorem random_move_swapped_bounds:
  "possible_random_cells (init_ai 1 2) = [(0, 0), (1, 0)] \<and>
   make_random_move rev (init_ai 1 2) = Some (1, 0) \<and>
   (1, 0) \<notin> all_cells 1 2 \<and>
   (0, 1) \<in> (all_cells 1 2 - moves_made (init_ai 1 2)) - mines (init_ai 1 2) \<and>
   (0, 1) \<notin> set (possible_random_cells (init_ai 1 2))"
  by (simp add: possible_random_cells_def make_random_move_def init_ai_def all_cells_def
      upto_rec1)

section \<open>The observation sentence\<close>


lemma upto3: "[x - 1 .. x + 1] = [x - 1, x, x + (1::int)]"
  by (simp add: upto_rec1)

lemma fold_nested: "fold (\<lambda>r. fold (\<lambda>k. f (r, k)) ks) rs acc = fold f (List.product rs ks) acc"
  by (induction rs arbitrary: acc) (simp_all add: fold_map comp_def)

lemma fold_scan_cell:
  "distinct xs \<Longrightarrow> finite S \<Longrightarrow>
   fold (scan_cell a c) xs (S, n) =
     (S \<union> {rc \<in> set xs. rc \<noteq> c \<and> rc \<in> all_cells (height a) (width a) \<and>
              rc \<notin> moves_made a \<and> rc \<notin> safes a \<and> rc \<notin> mines a},
      n - int (card {rc \<in> set xs. rc \<noteq> c \<and> rc \<in> all_cells (height a) (width a) \<and> rc \<in> mines a}))"
proof (induction xs arbitrary: S n)
  case Nil
  then show ?case by simp
next
  case (Cons x xs)
  let ?G = "all_cells (height a) (width a)"
  have fin: "finite {rc \<in> set xs. rc \<noteq> c \<and> rc \<in> ?G \<and> rc \<in> mines a}" by simp
  have notin: "x \<notin> {rc \<in> set xs. rc \<noteq> c \<and> rc \<in> ?G \<and> rc \<in> mines a}"
    using Cons.prems by auto
  have inG: "x \<in> ?G \<longleftrightarrow> 0 \<le> fst x \<and> fst x < height a \<and> 0 \<le> snd x \<and> snd x < width a"
    by (cases x) (auto simp: all_cells_def)
  consider (add) "x \<noteq> c" "x \<in> ?G" "x \<notin> moves_made a" "x \<notin> safes a" "x \<notin> mines a"
    | (mine) "x \<noteq> c" "x \<in> ?G" "x \<in> mines a"
    | (skip) "x = c \<or> x \<notin> ?G \<or> (x \<notin> mines a \<and> (x \<in> moves_made a \<or> x \<in> safes a))"
    by blast
  then show ?case
  proof cases
    case add
    then have step: "scan_cell a c x (S, n) = (insert x S, n)"
      using inG by (simp add: scan_cell_def)
    have s1: "{rc \<in> set (x # xs). rc \<noteq> c \<and> rc \<in> ?G \<and> rc \<in> mines a}
            = {rc \<in> set xs. rc \<noteq> c \<and> rc \<in> ?G \<and> rc \<in> mines a}"
      using add by auto
    have s2: "insert x S \<union> {rc \<in> set xs. rc \<noteq> c \<and> rc \<in> ?G \<and>
              rc \<notin> moves_made a \<and> rc \<notin> safes a \<and> rc \<notin> mines a}
           = S \<union> {rc \<in> set (x # xs). rc \<noteq> c \<and> rc \<in> ?G \<and>
              rc \<notin> moves_made a \<and> rc \<notin> safes a \<and> rc \<notin> mines a}"
      using add by auto
    show ?thesis
      using Cons.prems Cons.IH [of "insert x S" n] step s1 s2 by simp
  next
    case mine
    then have step: "scan_cell a c x (S, n) = (S, n - 1)"
      using inG by (simp add: scan_cell_def)
    have s1: "{rc \<in> set (x # xs). rc \<noteq> c \<and> rc \<in> ?G \<and> rc \<in> mines a}
            = insert x {rc \<in> set xs. rc \<noteq> c \<and> rc \<in> ?G \<and> rc \<in> mines a}"
      using mine by auto
    have s2: "{rc \<in> set xs. rc \<noteq> c \<and> rc \<in> ?G \<and>
              rc \<notin> moves_made a \<and> rc \<notin> safes a \<and> rc \<notin> mines a}
           = {rc \<in> set (x # xs). rc \<noteq> c \<and> rc \<in> ?G \<and>
              rc \<notin> moves_made a \<and> rc \<notin> safes a \<and> rc \<notin> mines a}"
      using mine by auto
    have c1: "card (insert x {rc \<in> set xs. rc \<noteq> c \<and> rc \<in> ?G \<and> rc \<in> mines a})
            = Suc (card {rc \<in> set xs. rc \<noteq> c \<and> rc \<in> ?G \<and> rc \<in> mines a})"
      using fin notin by (rule card_insert_disjoint)
    show ?thesis
      using Cons.prems Cons.IH [of S "n - 1"] step
      unfolding s1 c1 s2 [symmetric] by simp
  next
    case skip
    then have step: "scan_cell a c x (S, n) = (S, n)"
      using inG by (auto simp: scan_cell_def)
    have s1: "{rc \<in> set (x # xs). rc \<noteq> c \<and> rc \<in> ?G \<and> rc \<in> mines a}
            = {rc \<in> set xs. rc \<noteq> c \<and> rc \<in> ?G \<and> rc \<in> mines a}"
      using skip by auto
    have s2: "{rc \<in> set xs. rc \<noteq> c \<and> rc \<in> ?G \<and>
              rc \<notin> moves_made a \<and> rc \<notin> safes a \<and> rc \<notin> mines a}
           = {rc \<in> set (x # xs). rc \<noteq> c \<and> rc \<in> ?G \<and>
              rc \<notin> moves_made a \<and> rc \<notin> safes a \<and> rc \<notin> mines a}"
      using skip by auto
    show ?thesis
      using Cons.prems Cons.IH [of S n] step
      unfolding s1 s2 [symmetric] by simp
  qed
qed

lemma block_set:
  "set (List.product [fst c - 1 .. fst c + 1] [snd c - 1 .. snd c + 1])
     = {fst c - 1 .. fst c + 1} \<times> {snd c - 1 .. snd c + 1}"
  by simp

lemma block_distinct: "distinct (List.product [fst c - 1 .. fst c + 1] [snd c - 1 .. snd c + 1])"
  by (simp add: distinct_product)

lemma scan_neighbours_eq:
  "scan_neighbours a c n =
     ({rc \<in> neighbours (height a) (width a) c.
         rc \<notin> moves_made a \<and> rc \<notin> safes a \<and> rc \<notin> mines a},
      n - int (card (neighbours (height a) (width a) c \<inter> mines a)))"
proof -
  let ?B = "List.product [fst c - 1 .. fst c + 1] [snd c - 1 .. snd c + 1]"
  have "scan_neighbours a c n = fold (scan_cell a c) ?B ({}, n)"
    unfolding scan_neighbours_def by (rule fold_nested)
  also have "\<dots> = ({} \<union> {rc \<in> set ?B. rc \<noteq> c \<and> rc \<in> all_cells (height a) (width a) \<and>
              rc \<notin> moves_made a \<and> rc \<notin> safes a \<and> rc \<notin> mines a},
      n - int (card {rc \<in> set ?B. rc \<noteq> c \<and> rc \<in> all_cells (height a) (width a) \<and> rc \<in> mines a}))"
    by (rule fold_scan_cell [OF block_distinct]) simp
  also have "{rc \<in> set ?B. rc \<noteq> c \<and> rc \<in> all_cells (height a) (width a) \<and> rc \<in> mines a}
      = neighbours (height a) (width a) c \<inter> mines a"
    unfolding block_set neighbours_def by blast
  also have "{} \<union> {rc \<in> set ?B. rc \<noteq> c \<and> rc \<in> all_cells (height a) (width a) \<and>
              rc \<notin> moves_made a \<and> rc \<notin> safes a \<and> rc \<notin> mines a}
      = {rc \<in> neighbours (height a) (width a) c.
         rc \<notin> moves_made a \<and> rc \<notin> safes a \<and> rc \<notin> mines a}"
    unfolding block_set neighbours_def by blast
  finally show ?thesis .
qed


text \<open>C6: the sentence built for a probe of \<open>c\<close> with count \<open>n\<close> holds exactly the in-bounds
  neighbours of \<open>c\<close> that are neither known mines, nor known safe, nor already probed; its
  count is \<open>n\<close> less one for every in-bounds neighbour that is a known mine; the probed
  cell itself is not in it.\<close>

theorem observation_sentence:
  "fst (scan_neighbours (mark_safe (a\<lparr>moves_made := insert c (moves_made a)\<rparr>) c) c n) =
     {rc \<in> neighbours (height a) (width a) c.
        rc \<notin> mines a \<and> rc \<notin> safes a \<and> rc \<notin> moves_made a} \<and>
   snd (scan_neighbours (mark_safe (a\<lparr>moves_made := insert c (moves_made a)\<rparr>) c) c n) =
     n - int (card (neighbours (height a) (width a) c \<inter> mines a)) \<and>
   c \<notin> fst (scan_neighbours (mark_safe (a\<lparr>moves_made := insert c (moves_made a)\<rparr>) c) c n)"
  unfolding scan_neighbours_eq by (auto simp: mark_safe_def neighbours_def)

section \<open>The first loop: direct conclusions\<close>

lemma sentence_mark_safe_eq: "sentence_mark_safe s c = s\<lparr>cells := cells s - {c}\<rparr>"
  by (simp add: sentence_mark_safe_def)

lemma fold_mark_safe_new:
  "fold mark_safe_new xs (a, f) =
     (a\<lparr>safes := safes a \<union> set xs,
        knowledge := map (\<lambda>s. s\<lparr>cells := cells s - (set xs - safes a)\<rparr>) (knowledge a)\<rparr>,
      f \<or> \<not> set xs \<subseteq> safes a)"
proof (induction xs arbitrary: a f)
  case Nil
  show ?case by simp
next
  case (Cons x xs)
  show ?case
  proof (cases "x \<in> safes a")
    case True
    then have "set (x # xs) - safes a = set xs - safes a" "safes a \<union> set (x # xs) = safes a \<union> set xs"
      by auto
    with True Cons.IH [of a f] show ?thesis
      by (simp add: mark_safe_new_def)
  next
    case False
    have e: "\<And>C. C - {x} - (set xs - insert x (safes a)) = C - (set (x # xs) - safes a)"
      using False by auto
    have "fold mark_safe_new (x # xs) (a, f) = fold mark_safe_new xs (mark_safe a x, True)"
      using False by (simp add: mark_safe_new_def)
    also have "\<dots> = (a\<lparr>safes := safes a \<union> set (x # xs),
        knowledge := map (\<lambda>s. s\<lparr>cells := cells s - (set (x # xs) - safes a)\<rparr>) (knowledge a)\<rparr>,
      True)"
      unfolding Cons.IH
      by (simp add: mark_safe_def sentence_mark_safe_eq comp_def e del: set_simps) (simp add: Un_commute insert_commute)
    finally show ?thesis using False by simp
  qed
qed

lemma sentence_mark_mine_eq:
  "sentence_mark_mine s c =
     s\<lparr>cells := cells s - {c}, count := count s - int (card (cells s \<inter> {c}))\<rparr>"
  by (simp add: sentence_mark_mine_def)

lemma card_Int_insert_new:
  assumes "x \<notin> N" "finite N"
  shows "int (card (C \<inter> insert x N)) = int (card (C \<inter> {x})) + int (card ((C - {x}) \<inter> N))"
proof -
  have fin: "finite (C \<inter> N)" using assms by simp
  have e: "(C - {x}) \<inter> N = C \<inter> N" using assms by auto
  show ?thesis
  proof (cases "x \<in> C")
    case True
    then have "C \<inter> insert x N = insert x (C \<inter> N)" by auto
    moreover have "x \<notin> C \<inter> N" using assms by simp
    ultimately show ?thesis using fin True e by simp
  next
    case False
    then have "C \<inter> insert x N = C \<inter> N" by auto
    then show ?thesis using False e by simp
  qed
qed

lemma fold_mark_mine_new:
  "fold mark_mine_new xs (a, f) =
     (a\<lparr>mines := mines a \<union> set xs,
        knowledge := map (\<lambda>s. s\<lparr>cells := cells s - (set xs - mines a),
                                 count := count s - int (card (cells s \<inter> (set xs - mines a)))\<rparr>)
                       (knowledge a)\<rparr>,
      f \<or> \<not> set xs \<subseteq> mines a)"
proof (induction xs arbitrary: a f)
  case Nil
  show ?case by simp
next
  case (Cons x xs)
  show ?case
  proof (cases "x \<in> mines a")
    case True
    then have "set (x # xs) - mines a = set xs - mines a" "mines a \<union> set (x # xs) = mines a \<union> set xs"
      by auto
    with True Cons.IH [of a f] show ?thesis
      by (simp add: mark_mine_new_def)
  next
    case False
    let ?N = "set xs - insert x (mines a)"
    have N: "set (x # xs) - mines a = insert x ?N" "x \<notin> ?N" "finite ?N"
      using False by auto
    have e: "\<And>C. C - {x} - ?N = C - (set (x # xs) - mines a)"
      using False by auto
    have c: "\<And>C (n::int). n - int (card (C \<inter> {x})) - int (card ((C - {x}) \<inter> ?N))
                = n - int (card (C \<inter> (set (x # xs) - mines a)))"
      unfolding N(1) using card_Int_insert_new [OF N(2) N(3)] by simp
    have "fold mark_mine_new (x # xs) (a, f) = fold mark_mine_new xs (mark_mine a x, True)"
      using False by (simp add: mark_mine_new_def)
    also have "\<dots> = (a\<lparr>mines := mines a \<union> set (x # xs),
        knowledge := map (\<lambda>s. s\<lparr>cells := cells s - (set (x # xs) - mines a),
                  count := count s - int (card (cells s \<inter> (set (x # xs) - mines a)))\<rparr>) (knowledge a)\<rparr>,
      True)"
      unfolding Cons.IH
      by (simp add: mark_mine_def sentence_mark_mine_eq comp_def e c del: set_simps) (simp add: Un_commute insert_commute)
    finally show ?thesis using False by simp
  qed
qed

lemma unknown_map_subset:
  "(\<And>s. s \<in> set kn \<Longrightarrow> cells (g s) \<subseteq> cells s) \<Longrightarrow> unknown (map g kn) \<subseteq> unknown kn"
  by (auto simp: unknown_def)

lemma narrowed_refl: "narrowed kn kn"
  by (simp add: narrowed_def)

lemma narrowed_trans: "narrowed k1 k2 \<Longrightarrow> narrowed k2 k3 \<Longrightarrow> narrowed k1 k3"
  unfolding narrowed_def by (metis order_trans)

lemma narrowed_unknown: "narrowed kn kn' \<Longrightarrow> unknown kn' \<subseteq> unknown kn"
proof
  fix x assume n: "narrowed kn kn'" and "x \<in> unknown kn'"
  then obtain s where "s \<in> set kn'" "x \<in> cells s" by (auto simp: unknown_def)
  then obtain k where k: "k < length kn'" "kn' ! k = s" by (auto simp: in_set_conv_nth)
  then have "x \<in> cells (kn ! k)" "kn ! k \<in> set kn"
    using n \<open>x \<in> cells s\<close> by (auto simp: narrowed_def)
  then show "x \<in> unknown kn" by (auto simp: unknown_def)
qed

lemma step_ok_refl: "step_ok st st"
  by (simp add: step_ok_def narrowed_refl)

lemma step_ok_trans:
  assumes a: "step_ok s1 s2" and b: "step_ok s2 s3"
  shows "step_ok s1 s3"
proof -
  have n12: "narrowed (knowledge (fst s1)) (knowledge (fst s2))"
    and n23: "narrowed (knowledge (fst s2)) (knowledge (fst s3))"
    using a b unfolding step_ok_def by blast+
  have n: "narrowed (knowledge (fst s1)) (knowledge (fst s3))"
    using n12 n23 by (rule narrowed_trans)
  have u23: "unknown (knowledge (fst s3)) \<subseteq> unknown (knowledge (fst s2))"
    using n23 by (rule narrowed_unknown)
  have u12: "unknown (knowledge (fst s2)) \<subseteq> unknown (knowledge (fst s1))"
    using n12 by (rule narrowed_unknown)
  have f12: "snd s2 \<longrightarrow> snd s1 \<or> unknown (knowledge (fst s2)) \<subset> unknown (knowledge (fst s1))"
    and f23: "snd s3 \<longrightarrow> snd s2 \<or> unknown (knowledge (fst s3)) \<subset> unknown (knowledge (fst s2))"
    using a b unfolding step_ok_def by blast+
  have f: "snd s3 \<longrightarrow> snd s1 \<or> unknown (knowledge (fst s3)) \<subset> unknown (knowledge (fst s1))"
    using f12 f23 u12 u23 by blast
  have m12: "snd s1 \<longrightarrow> snd s2" and m23: "snd s2 \<longrightarrow> snd s3"
    using a b unfolding step_ok_def by blast+
  have e12: "\<not> snd s2 \<longrightarrow> s2 = s1" and e23: "\<not> snd s3 \<longrightarrow> s3 = s2"
    using a b unfolding step_ok_def by blast+
  have g: "\<not> snd s3 \<longrightarrow> s3 = s1"
    using e12 e23 m23 by blast
  have h12: "height (fst s2) = height (fst s1)" "width (fst s2) = width (fst s1)"
    "moves_made (fst s2) = moves_made (fst s1)"
    using a unfolding step_ok_def by blast+
  have h23: "height (fst s3) = height (fst s2)" "width (fst s3) = width (fst s2)"
    "moves_made (fst s3) = moves_made (fst s2)"
    using b unfolding step_ok_def by blast+
  have h: "height (fst s3) = height (fst s1)" "width (fst s3) = width (fst s1)"
    "moves_made (fst s3) = moves_made (fst s1)"
    using h12 h23 by simp_all
  have i: "safes (fst s1) \<subseteq> safes (fst s3)" "mines (fst s1) \<subseteq> mines (fst s3)"
    using a b unfolding step_ok_def by blast+
  show ?thesis
    unfolding step_ok_def using n f g h i m12 m23 by blast
qed

text \<open>Marking as safe the cells of a list that all occur in the sentences.\<close>

lemma mark_safes_step_ok:
  assumes "set xs \<subseteq> unknown (knowledge a)"
  shows "step_ok (a, f) (fold mark_safe_new xs (a, f))"
proof -
  let ?N = "set xs - safes a"
  let ?kn' = "map (\<lambda>s. s\<lparr>cells := cells s - ?N\<rparr>) (knowledge a)"
  have n: "narrowed (knowledge a) ?kn'"
    by (auto simp: narrowed_def)
  have same: "set xs \<subseteq> safes a \<Longrightarrow> fold mark_safe_new xs (a, f) = (a, f)"
  proof -
    assume h: "set xs \<subseteq> safes a"
    then have N: "?N = {}" and S: "safes a \<union> set xs = safes a" by auto
    have "?kn' = knowledge a" unfolding N by (rule map_idI) simp
    then show ?thesis unfolding fold_mark_safe_new S using h by simp
  qed
  have strict: "\<not> set xs \<subseteq> safes a \<Longrightarrow> unknown ?kn' \<subset> unknown (knowledge a)"
  proof -
    assume "\<not> set xs \<subseteq> safes a"
    then obtain x where x: "x \<in> ?N" by auto
    then have "x \<in> unknown (knowledge a)" using assms by auto
    moreover have "x \<notin> unknown ?kn'" using x by (auto simp: unknown_def)
    moreover have "unknown ?kn' \<subseteq> unknown (knowledge a)" using n by (rule narrowed_unknown)
    ultimately show ?thesis by blast
  qed
  show ?thesis
  proof (cases "set xs \<subseteq> safes a")
    case True
    then show ?thesis using same step_ok_refl [of "(a, f)"] by simp
  next
    case False
    then show ?thesis
      unfolding fold_mark_safe_new step_ok_def using n strict by auto
  qed
qed

lemma mark_mines_step_ok:
  assumes "set xs \<subseteq> unknown (knowledge a)"
  shows "step_ok (a, f) (fold mark_mine_new xs (a, f))"
proof -
  let ?N = "set xs - mines a"
  let ?kn' = "map (\<lambda>s. s\<lparr>cells := cells s - ?N,
                           count := count s - int (card (cells s \<inter> ?N))\<rparr>) (knowledge a)"
  have n: "narrowed (knowledge a) ?kn'"
    by (auto simp: narrowed_def)
  have same: "set xs \<subseteq> mines a \<Longrightarrow> fold mark_mine_new xs (a, f) = (a, f)"
  proof -
    assume h: "set xs \<subseteq> mines a"
    then have N: "?N = {}" and S: "mines a \<union> set xs = mines a" by auto
    have "?kn' = knowledge a" unfolding N by (rule map_idI) simp
    then show ?thesis unfolding fold_mark_mine_new S using h by simp
  qed
  have strict: "\<not> set xs \<subseteq> mines a \<Longrightarrow> unknown ?kn' \<subset> unknown (knowledge a)"
  proof -
    assume "\<not> set xs \<subseteq> mines a"
    then obtain x where x: "x \<in> ?N" by auto
    then have "x \<in> unknown (knowledge a)" using assms by auto
    moreover have "x \<notin> unknown ?kn'" using x by (auto simp: unknown_def)
    moreover have "unknown ?kn' \<subseteq> unknown (knowledge a)" using n by (rule narrowed_unknown)
    ultimately show ?thesis by blast
  qed
  show ?thesis
  proof (cases "set xs \<subseteq> mines a")
    case True
    then show ?thesis using same step_ok_refl [of "(a, f)"] by simp
  next
    case False
    then show ?thesis
      unfolding fold_mark_mine_new step_ok_def using n strict by auto
  qed
qed

lemma set_sorted_list_subset: "set (sorted_list_of_set A) \<subseteq> A"
proof (cases "finite A")
  case True
  then show ?thesis by simp
next
  case False
  then have "sorted_list_of_set A = []"
    by (simp add: sorted_list_of_set.fold_insort_key.infinite)
  then show ?thesis by simp
qed

lemma nth_cells_unknown: "i < length kn \<Longrightarrow> cells (kn ! i) \<subseteq> unknown kn"
  unfolding unknown_def using nth_mem by blast

lemma known_safes_subset: "known_safes s \<subseteq> cells s"
  by (simp add: known_safes_def)

lemma known_mines_subset: "known_mines s \<subseteq> cells s"
  by (simp add: known_mines_def)

lemma step_ok_length:
  "step_ok st st' \<Longrightarrow> length (knowledge (fst st')) = length (knowledge (fst st))"
  unfolding step_ok_def narrowed_def by blast

lemma conclude_at_step_ok:
  assumes i: "i < length (knowledge (fst st))"
  shows "step_ok st (conclude_at i st)"
proof -
  define xs where "xs = sorted_list_of_set (known_safes (knowledge (fst st) ! i))"
  define st1 where "st1 = (if known_safes (knowledge (fst st) ! i) \<noteq> {}
                           then fold mark_safe_new xs st else st)"
  define ys where "ys = sorted_list_of_set (known_mines (knowledge (fst st1) ! i))"
  define st2 where "st2 = (if known_mines (knowledge (fst st1) ! i) \<noteq> {}
                           then fold mark_mine_new ys st1 else st1)"
  have eq: "conclude_at i st = st2"
    by (simp add: conclude_at_def Let_def st2_def ys_def st1_def xs_def)
  have "set xs \<subseteq> unknown (knowledge (fst st))"
    unfolding xs_def using set_sorted_list_subset known_safes_subset nth_cells_unknown [OF i]
    by blast
  then have "step_ok (fst st, snd st) (fold mark_safe_new xs (fst st, snd st))"
    by (rule mark_safes_step_ok)
  then have s1: "step_ok st st1"
    unfolding st1_def using step_ok_refl [of st] by simp
  then have i1: "i < length (knowledge (fst st1))"
    using i step_ok_length by simp
  have "set ys \<subseteq> unknown (knowledge (fst st1))"
    unfolding ys_def using set_sorted_list_subset known_mines_subset nth_cells_unknown [OF i1]
    by blast
  then have "step_ok (fst st1, snd st1) (fold mark_mine_new ys (fst st1, snd st1))"
    by (rule mark_mines_step_ok)
  then have s2: "step_ok st1 st2"
    unfolding st2_def using step_ok_refl [of st1] by simp
  show ?thesis
    unfolding eq using s1 s2 by (rule step_ok_trans)
qed

lemma fold_conclude_at_step_ok:
  "\<forall>i \<in> set is. i < length (knowledge (fst st)) \<Longrightarrow> step_ok st (fold conclude_at is st)"
proof (induction "is" arbitrary: st)
  case Nil
  show ?case by (simp add: step_ok_refl)
next
  case (Cons i "is")
  have s1: "step_ok st (conclude_at i st)"
    using Cons.prems by (simp add: conclude_at_step_ok)
  then have "length (knowledge (fst (conclude_at i st))) = length (knowledge (fst st))"
    by (rule step_ok_length)
  then have "\<forall>k \<in> set is. k < length (knowledge (fst (conclude_at i st)))"
    using Cons.prems by simp
  then have "step_ok (conclude_at i st) (fold conclude_at is (conclude_at i st))"
    by (rule Cons.IH)
  with s1 show ?case
    using step_ok_trans by simp
qed

lemma conclude_pass_step_ok: "step_ok (a, False) (conclude_pass a)"
  unfolding conclude_pass_def by (rule fold_conclude_at_step_ok) simp

lemma true_of_known_safes: "true_of M s \<Longrightarrow> known_safes s \<inter> M = {}"
  by (auto simp: true_of_def known_safes_def)

lemma true_of_known_mines:
  assumes "true_of M s"
  shows "known_mines s \<subseteq> M"
proof (cases "int (card (cells s)) = count s")
  case True
  then have "card (cells s \<inter> M) = card (cells s)"
    using assms by (simp add: true_of_def)
  moreover have "finite (cells s)" using assms by (simp add: true_of_def)
  ultimately have "cells s \<inter> M = cells s"
    by (intro card_subset_eq) auto
  then show ?thesis by (auto simp: known_mines_def)
next
  case False
  then show ?thesis by (simp add: known_mines_def)
qed

lemma true_of_remove_safe:
  assumes "true_of M s" "N \<inter> M = {}"
  shows "true_of M (s\<lparr>cells := cells s - N\<rparr>)"
proof -
  have "(cells s - N) \<inter> M = cells s \<inter> M" using assms(2) by auto
  then show ?thesis using assms(1) by (simp add: true_of_def)
qed

lemma true_of_remove_mines:
  assumes "true_of M s" "N \<subseteq> M"
  shows "true_of M (s\<lparr>cells := cells s - N, count := count s - int (card (cells s \<inter> N))\<rparr>)"
proof -
  have fin: "finite (cells s \<inter> M)" using assms(1) by (simp add: true_of_def)
  have sub: "cells s \<inter> N \<subseteq> cells s \<inter> M" using assms(2) by auto
  have "(cells s - N) \<inter> M = (cells s \<inter> M) - (cells s \<inter> N)" by auto
  then have "card ((cells s - N) \<inter> M) = card (cells s \<inter> M) - card (cells s \<inter> N)"
    using card_Diff_subset [OF finite_subset [OF sub fin] sub] by simp
  moreover have "card (cells s \<inter> N) \<le> card (cells s \<inter> M)"
    using sub fin by (rule card_mono [rotated])
  ultimately show ?thesis using assms(1) by (simp add: true_of_def)
qed

lemma mark_safes_consistent:
  assumes "consistent M a" "set xs \<inter> M = {}"
  shows "consistent M (fst (fold mark_safe_new xs (a, f)))"
proof -
  have "(set xs - safes a) \<inter> M = {}" using assms(2) by auto
  then have "\<And>s. true_of M s \<Longrightarrow> true_of M (s\<lparr>cells := cells s - (set xs - safes a)\<rparr>)"
    by (rule true_of_remove_safe [rotated])
  then show ?thesis
    using assms unfolding fold_mark_safe_new consistent_def
    by (auto simp: list_all_iff)
qed

lemma mark_mines_consistent:
  assumes "consistent M a" "set xs \<subseteq> M"
  shows "consistent M (fst (fold mark_mine_new xs (a, f)))"
proof -
  have "set xs - mines a \<subseteq> M" using assms(2) by auto
  then have "\<And>s. true_of M s \<Longrightarrow> true_of M (s\<lparr>cells := cells s - (set xs - mines a),
       count := count s - int (card (cells s \<inter> (set xs - mines a)))\<rparr>)"
    by (rule true_of_remove_mines [rotated])
  then show ?thesis
    using assms unfolding fold_mark_mine_new consistent_def
    by (auto simp: list_all_iff)
qed

lemma consistent_nth: "consistent M a \<Longrightarrow> i < length (knowledge a) \<Longrightarrow> true_of M (knowledge a ! i)"
  by (simp add: consistent_def list_all_length)

lemma conclude_at_consistent:
  assumes i: "i < length (knowledge (fst st))" and c: "consistent M (fst st)"
  shows "consistent M (fst (conclude_at i st))"
proof -
  define xs where "xs = sorted_list_of_set (known_safes (knowledge (fst st) ! i))"
  define st1 where "st1 = (if known_safes (knowledge (fst st) ! i) \<noteq> {}
                           then fold mark_safe_new xs st else st)"
  define ys where "ys = sorted_list_of_set (known_mines (knowledge (fst st1) ! i))"
  define st2 where "st2 = (if known_mines (knowledge (fst st1) ! i) \<noteq> {}
                           then fold mark_mine_new ys st1 else st1)"
  have eq: "conclude_at i st = st2"
    by (simp add: conclude_at_def Let_def st2_def ys_def st1_def xs_def)
  have "set xs \<inter> M = {}"
    unfolding xs_def
    using set_sorted_list_subset [of "known_safes (knowledge (fst st) ! i)"]
      true_of_known_safes [OF consistent_nth [OF c i]] by blast
  then have "consistent M (fst (fold mark_safe_new xs (fst st, snd st)))"
    using c by (intro mark_safes_consistent)
  then have c1: "consistent M (fst st1)"
    unfolding st1_def using c by simp
  have "set xs \<subseteq> unknown (knowledge (fst st))"
    unfolding xs_def using set_sorted_list_subset known_safes_subset nth_cells_unknown [OF i]
    by blast
  then have "step_ok (fst st, snd st) (fold mark_safe_new xs (fst st, snd st))"
    by (rule mark_safes_step_ok)
  then have "step_ok st st1"
    unfolding st1_def using step_ok_refl [of st] by simp
  then have i1: "i < length (knowledge (fst st1))"
    using i step_ok_length by simp
  have "set ys \<subseteq> M"
    unfolding ys_def
    using set_sorted_list_subset [of "known_mines (knowledge (fst st1) ! i)"]
      true_of_known_mines [OF consistent_nth [OF c1 i1]] by blast
  then have "consistent M (fst (fold mark_mine_new ys (fst st1, snd st1)))"
    using c1 by (intro mark_mines_consistent)
  then have "consistent M (fst st2)"
    unfolding st2_def using c1 by simp
  then show ?thesis unfolding eq .
qed

lemma fold_conclude_at_consistent:
  "\<forall>i \<in> set is. i < length (knowledge (fst st)) \<Longrightarrow> consistent M (fst st) \<Longrightarrow>
   consistent M (fst (fold conclude_at is st))"
proof (induction "is" arbitrary: st)
  case Nil
  then show ?case by simp
next
  case (Cons i "is")
  have "step_ok st (conclude_at i st)"
    using Cons.prems by (simp add: conclude_at_step_ok)
  then have "length (knowledge (fst (conclude_at i st))) = length (knowledge (fst st))"
    by (rule step_ok_length)
  then have "\<forall>k \<in> set is. k < length (knowledge (fst (conclude_at i st)))"
    using Cons.prems by simp
  moreover have "consistent M (fst (conclude_at i st))"
    using Cons.prems by (simp add: conclude_at_consistent)
  ultimately have "consistent M (fst (fold conclude_at is (conclude_at i st)))"
    by (rule Cons.IH)
  then show ?case by simp
qed

lemma conclude_pass_consistent: "consistent M a \<Longrightarrow> consistent M (fst (conclude_pass a))"
  unfolding conclude_pass_def by (rule fold_conclude_at_consistent) simp_all

section \<open>The second loop: subset resolution\<close>

lemma grows_refl: "grows kn f kn f"
  by (simp add: grows_def)

lemma grows_trans:
  assumes "grows k1 f1 k2 f2" "grows k2 f2 k3 f3"
  shows "grows k1 f1 k3 f3"
proof -
  obtain ys where ys: "k2 = k1 @ ys" "f2 \<longleftrightarrow> f1 \<or> ys \<noteq> []" "ys \<noteq> [] \<longrightarrow> \<not> set ys \<subseteq> set k1"
    "distinct k1 \<longrightarrow> distinct k2"
    using assms(1) unfolding grows_def by blast
  obtain zs where zs: "k3 = k2 @ zs" "f3 \<longleftrightarrow> f2 \<or> zs \<noteq> []" "zs \<noteq> [] \<longrightarrow> \<not> set zs \<subseteq> set k2"
    "distinct k2 \<longrightarrow> distinct k3"
    using assms(2) unfolding grows_def by blast
  have 1: "k3 = k1 @ (ys @ zs)" using ys(1) zs(1) by simp
  have 2: "f3 \<longleftrightarrow> f1 \<or> ys @ zs \<noteq> []" using ys(2) zs(2) by auto
  have 3: "ys @ zs \<noteq> [] \<longrightarrow> \<not> set (ys @ zs) \<subseteq> set k1"
    using ys(1,3) zs(3) by (cases "ys = []") auto
  have 4: "distinct k1 \<longrightarrow> distinct k3" using ys(4) zs(4) by blast
  show ?thesis unfolding grows_def using 1 2 3 4 by blast
qed

lemma grows_append1: "d \<notin> set kn \<Longrightarrow> grows kn f (kn @ [d]) True"
  unfolding grows_def by (intro exI [of _ "[d]"]) simp

lemma resolve_inner_grows:
  assumes "resolve_inner i j kn f = Some r"
  shows "grows kn f (fst r) (snd r)"
proof (rule resolve_inner.raw_induct
    [where P = "\<lambda>i j kn f r. grows kn f (fst r) (snd r)", OF _ assms], goal_cases)
  case (1 rec i j kn f r)
  show ?case
  proof (cases "j < length kn")
    case False
    with 1(2) have "r = (kn, f)" by simp
    then show ?thesis using grows_refl [of kn f] by simp
  next
    case True
    note j = this
    show ?thesis
    proof (cases "i = j")
      case True
      with j 1(2) have "rec i (j + 1) kn f = Some r" by simp
      then show ?thesis by (rule 1(1))
    next
      case False
      note ij = this
      let ?d = "derived (kn ! i) (kn ! j)"
      let ?C = "cells (kn ! i) \<subseteq> cells (kn ! j) \<and> card (cells (kn ! j) - cells (kn ! i)) \<noteq> 0
                 \<and> ?d \<notin> set kn"
      have body: "(if ?C then rec i (j + 1) (kn @ [?d]) True else rec i (j + 1) kn f) = Some r"
        using 1(2) j ij by (simp only: if_True if_False)
      show ?thesis
      proof (cases ?C)
        case True
        with body have "rec i (j + 1) (kn @ [?d]) True = Some r"
          by simp
        then have "grows (kn @ [?d]) True (fst r) (snd r)" by (rule 1(1))
        moreover have "grows kn f (kn @ [?d]) True"
          using True by (intro grows_append1) simp
        ultimately show ?thesis using grows_trans by blast
      next
        case False
        with body have "rec i (j + 1) kn f = Some r"
          by (simp only: if_False)
        then show ?thesis by (rule 1(1))
      qed
    qed
  qed
qed

lemma resolve_outer_grows:
  assumes "resolve_outer i kn f = Some r"
  shows "grows kn f (fst r) (snd r)"
proof (rule resolve_outer.raw_induct
    [where P = "\<lambda>i kn f r. grows kn f (fst r) (snd r)", OF _ assms], goal_cases)
  case (1 rec i kn f r)
  show ?case
  proof (cases "i < length kn")
    case False
    with 1(2) have "r = (kn, f)" by simp
    then show ?thesis using grows_refl [of kn f] by simp
  next
    case True
    with 1(2) obtain r1 where r1: "resolve_inner i 0 kn f = Some r1"
      and r: "rec (i + 1) (fst r1) (snd r1) = Some r"
      by (auto simp: bind_eq_Some_conv)
    from r1 have "grows kn f (fst r1) (snd r1)" by (rule resolve_inner_grows)
    moreover from r have "grows (fst r1) (snd r1) (fst r) (snd r)" by (rule 1(1))
    ultimately show ?thesis by (rule grows_trans)
  qed
qed

text \<open>Induction over the runs of the three loops that return.\<close>

lemma resolve_inner_induct [consumes 1, case_names stop skip add]:
  assumes run: "resolve_inner i j kn f = Some r"
    and stop: "\<And>j kn f. \<not> j < length kn \<Longrightarrow> P j kn f (kn, f)"
    and skip: "\<And>j kn f r. j < length kn \<Longrightarrow>
            i = j \<or> \<not> (cells (kn ! i) \<subseteq> cells (kn ! j) \<and>
              card (cells (kn ! j) - cells (kn ! i)) \<noteq> 0 \<and> derived (kn ! i) (kn ! j) \<notin> set kn) \<Longrightarrow>
            P (j + 1) kn f r \<Longrightarrow> P j kn f r"
    and add: "\<And>j kn f r. j < length kn \<Longrightarrow> i \<noteq> j \<Longrightarrow> cells (kn ! i) \<subseteq> cells (kn ! j) \<Longrightarrow>
            card (cells (kn ! j) - cells (kn ! i)) \<noteq> 0 \<Longrightarrow> derived (kn ! i) (kn ! j) \<notin> set kn \<Longrightarrow>
            P (j + 1) (kn @ [derived (kn ! i) (kn ! j)]) True r \<Longrightarrow> P j kn f r"
  shows "P j kn f r"
proof -
  have "i = i \<longrightarrow> P j kn f r"
  proof (rule resolve_inner.raw_induct
      [where P = "\<lambda>i' j kn f r. i' = i \<longrightarrow> P j kn f r", OF _ run], goal_cases)
    case (1 rec i' j kn f r)
    show ?case
    proof
      assume i': "i' = i"
      show "P j kn f r"
      proof (cases "j < length kn")
        case False
        with 1(2) have "r = (kn, f)" by simp
        then show ?thesis using stop [OF False] by simp
      next
        case True
        note j = this
        show ?thesis
        proof (cases "i = j")
          case True
          with j 1(2) i' have "rec i (j + 1) kn f = Some r" by simp
          then have "P (j + 1) kn f r" using 1(1) by blast
          then show ?thesis using skip j True by blast
        next
          case False
          note ij = this
          let ?d = "derived (kn ! i) (kn ! j)"
          let ?C = "cells (kn ! i) \<subseteq> cells (kn ! j) \<and>
                    card (cells (kn ! j) - cells (kn ! i)) \<noteq> 0 \<and> ?d \<notin> set kn"
          have body: "(if ?C then rec i (j + 1) (kn @ [?d]) True else rec i (j + 1) kn f) = Some r"
            using 1(2) j ij unfolding i' by (simp only: if_True if_False)
          show ?thesis
          proof (cases ?C)
            case True
            with body have "rec i (j + 1) (kn @ [?d]) True = Some r" by simp
            then have "P (j + 1) (kn @ [?d]) True r" using 1(1) by blast
            then show ?thesis using add [OF j ij] True by blast
          next
            case False
            with body have "rec i (j + 1) kn f = Some r" by (simp only: if_False)
            then have "P (j + 1) kn f r" using 1(1) by blast
            then show ?thesis using skip [OF j] False by blast
          qed
        qed
      qed
    qed
  qed
  then show ?thesis by simp
qed

lemma resolve_outer_induct [consumes 1, case_names stop step]:
  assumes run: "resolve_outer i kn f = Some r"
    and stop: "\<And>i kn f. \<not> i < length kn \<Longrightarrow> P i kn f (kn, f)"
    and step: "\<And>i kn f r1 r. i < length kn \<Longrightarrow> resolve_inner i 0 kn f = Some r1 \<Longrightarrow>
            resolve_outer i kn f = Some r \<Longrightarrow>
            P (i + 1) (fst r1) (snd r1) r \<Longrightarrow> P i kn f r"
  shows "P i kn f r"
proof -
  have "resolve_outer i kn f = Some r \<and> P i kn f r"
  proof (rule resolve_outer.raw_induct
      [where P = "\<lambda>i kn f r. resolve_outer i kn f = Some r \<and> P i kn f r", OF _ run], goal_cases)
    case (1 rec i kn f r)
    show ?case
    proof (cases "i < length kn")
      case False
      with 1(2) have r: "r = (kn, f)" by simp
      have "resolve_outer i kn f = Some (kn, f)"
        using False by (subst resolve_outer.simps) simp
      then show ?thesis using stop [OF False] r by simp
    next
      case True
      with 1(2) obtain r1 where r1: "resolve_inner i 0 kn f = Some r1"
        and r: "rec (i + 1) (fst r1) (snd r1) = Some r"
        by (auto simp: bind_eq_Some_conv)
      from r have ih: "resolve_outer (i + 1) (fst r1) (snd r1) = Some r"
        "P (i + 1) (fst r1) (snd r1) r" using 1(1) by blast+
      have run': "resolve_outer i kn f = Some r"
        using True r1 ih(1) by (subst resolve_outer.simps) simp
      then show ?thesis using step [OF True r1 run' ih(2)] by simp
    qed
  qed
  then show ?thesis by simp
qed

lemma infer_induct [consumes 1, case_names stop step]:
  assumes run: "infer a = Some a'"
    and stop: "\<And>a kn. resolve_outer 0 (knowledge (fst (conclude_pass a))) (snd (conclude_pass a))
                 = Some (kn, False) \<Longrightarrow> P a ((fst (conclude_pass a))\<lparr>knowledge := kn\<rparr>)"
    and step: "\<And>a kn a'. resolve_outer 0 (knowledge (fst (conclude_pass a))) (snd (conclude_pass a))
                 = Some (kn, True) \<Longrightarrow> infer ((fst (conclude_pass a))\<lparr>knowledge := kn\<rparr>) = Some a' \<Longrightarrow>
               P ((fst (conclude_pass a))\<lparr>knowledge := kn\<rparr>) a' \<Longrightarrow> P a a'"
  shows "P a a'"
proof -
  have "infer a = Some a' \<and> P a a'"
  proof (rule infer.raw_induct
      [where P = "\<lambda>a a'. infer a = Some a' \<and> P a a'", OF _ run], goal_cases)
    case (1 rec a a')
    let ?st = "conclude_pass a"
    from 1(2) obtain r where r: "resolve_outer 0 (knowledge (fst ?st)) (snd ?st) = Some r"
      and rest: "(if snd r then rec ((fst ?st)\<lparr>knowledge := fst r\<rparr>)
                  else Some ((fst ?st)\<lparr>knowledge := fst r\<rparr>)) = Some a'"
      by (auto simp: Let_def bind_eq_Some_conv)
    show ?case
    proof (cases "snd r")
      case True
      then have r': "resolve_outer 0 (knowledge (fst ?st)) (snd ?st) = Some (fst r, True)"
        using r by (cases r) simp
      from True rest have "rec ((fst ?st)\<lparr>knowledge := fst r\<rparr>) = Some a'" by simp
      then have ih: "infer ((fst ?st)\<lparr>knowledge := fst r\<rparr>) = Some a'"
        "P ((fst ?st)\<lparr>knowledge := fst r\<rparr>) a'" using 1(1) by blast+
      have "infer a = Some a'"
        using r' ih(1) by (subst infer.simps) (simp add: Let_def)
      then show ?thesis using step [OF r' ih] by simp
    next
      case False
      then have r': "resolve_outer 0 (knowledge (fst ?st)) (snd ?st) = Some (fst r, False)"
        using r by (cases r) simp
      from False rest have a': "a' = (fst ?st)\<lparr>knowledge := fst r\<rparr>" by simp
      have "infer a = Some a'"
        using r' a' by (subst infer.simps) (simp add: Let_def)
      then show ?thesis using stop [OF r'] a' by simp
    qed
  qed
  then show ?thesis by simp
qed

lemma growsD:
  assumes "grows kn f kn' f'"
  obtains ys where "kn' = kn @ ys" "f' \<longleftrightarrow> f \<or> ys \<noteq> []" "ys \<noteq> [] \<longrightarrow> \<not> set ys \<subseteq> set kn"
    "distinct kn \<longrightarrow> distinct kn'"
  using assms unfolding grows_def by blast

lemma grows_unflagged: "grows kn f kn' False \<Longrightarrow> kn' = kn \<and> \<not> f"
  by (erule growsD) auto

lemma resolve_inner_closed:
  assumes run: "resolve_inner i j kn f = Some r"
    and A: "closed_under A" and sub: "set kn \<subseteq> A" and i: "i < length kn"
  shows "set (fst r) \<subseteq> A"
proof -
  have "set kn \<subseteq> A \<and> i < length kn \<longrightarrow> set (fst r) \<subseteq> A"
    using run
  proof (induction rule: resolve_inner_induct)
    case (stop j kn f)
    show ?case by simp
  next
    case (skip j kn f r)
    then show ?case by blast
  next
    case (add j kn f r)
    show ?case
    proof
      assume h: "set kn \<subseteq> A \<and> i < length kn"
      then have "kn ! i \<in> A" "kn ! j \<in> A" using add(1) nth_mem by blast+
      then have "derived (kn ! i) (kn ! j) \<in> A"
        using A add(3) unfolding closed_under_def by blast
      then have "set (kn @ [derived (kn ! i) (kn ! j)]) \<subseteq> A \<and>
                 i < length (kn @ [derived (kn ! i) (kn ! j)])"
        using h by simp
      then show "set (fst r) \<subseteq> A" using add(6) by blast
    qed
  qed
  then show ?thesis using sub i by blast
qed

lemma resolve_outer_closed:
  assumes run: "resolve_outer i kn f = Some r"
    and A: "closed_under A" and sub: "set kn \<subseteq> A"
  shows "set (fst r) \<subseteq> A"
proof -
  have "set kn \<subseteq> A \<longrightarrow> set (fst r) \<subseteq> A"
    using run
  proof (induction rule: resolve_outer_induct)
    case (stop i kn f)
    show ?case by simp
  next
    case (step i kn f r1 r)
    show ?case
    proof
      assume "set kn \<subseteq> A"
      then have "set (fst r1) \<subseteq> A"
        using resolve_inner_closed [OF step(2) A] step(1) by blast
      then show "set (fst r) \<subseteq> A" using step(4) by blast
    qed
  qed
  then show ?thesis using sub by blast
qed

lemma resolve_inner_saturated:
  assumes run: "resolve_inner i j kn f = Some r" and quiet: "\<not> snd r"
  shows "\<forall>j' \<ge> j. j' < length kn \<longrightarrow> saturated_at kn i j'"
proof -
  have "(f \<longrightarrow> snd r) \<and> (\<not> snd r \<longrightarrow> (\<forall>j' \<ge> j. j' < length kn \<longrightarrow> saturated_at kn i j'))"
    using run
  proof (induction rule: resolve_inner_induct)
    case (stop j kn f)
    then show ?case by auto
  next
    case (skip j kn f r)
    have here: "saturated_at kn i j"
      using skip(2) unfolding saturated_at_def by blast
    have "\<not> snd r \<longrightarrow> (\<forall>j' \<ge> j. j' < length kn \<longrightarrow> saturated_at kn i j')"
    proof (intro impI allI)
      fix j' assume q: "\<not> snd r" and j': "j \<le> j'" "j' < length kn"
      show "saturated_at kn i j'"
      proof (cases "j' = j")
        case True
        then show ?thesis using here by simp
      next
        case False
        then have "j + 1 \<le> j'" using j' by simp
        then show ?thesis using skip(3) q j'(2) by blast
      qed
    qed
    then show ?case using skip(3) by blast
  next
    case (add j kn f r)
    then show ?case by blast
  qed
  then show ?thesis using quiet by blast
qed

lemma resolve_outer_saturated:
  assumes run: "resolve_outer i kn f = Some r" and quiet: "\<not> snd r"
  shows "\<forall>i' \<ge> i. i' < length kn \<longrightarrow> (\<forall>j' < length kn. saturated_at kn i' j')"
proof -
  have "\<not> snd r \<longrightarrow> (\<forall>i' \<ge> i. i' < length kn \<longrightarrow> (\<forall>j' < length kn. saturated_at kn i' j'))"
    using run
  proof (induction rule: resolve_outer_induct)
    case (stop i kn f)
    then show ?case by auto
  next
    case (step i kn f r1 r)
    show ?case
    proof (intro impI allI)
      fix i' j' assume q: "\<not> snd r" and i': "i \<le> i'" "i' < length kn" and j': "j' < length kn"
      have "grows (fst r1) (snd r1) (fst r) (snd r)"
      proof -
        have "resolve_outer (i + 1) (fst r1) (snd r1) = Some r"
          using step(1,2,3) by (subst (asm) resolve_outer.simps) simp
        then show ?thesis by (rule resolve_outer_grows)
      qed
      then have q1: "\<not> snd r1" using q by (auto elim: growsD)
      have "grows kn f (fst r1) (snd r1)" using step(2) by (rule resolve_inner_grows)
      then have k1: "fst r1 = kn" using q1 by (auto elim: growsD)
      show "saturated_at kn i' j'"
      proof (cases "i' = i")
        case True
        then show ?thesis using resolve_inner_saturated [OF step(2) q1] j' by simp
      next
        case False
        then have "i + 1 \<le> i'" using i' by simp
        then show ?thesis using step(4) q i'(2) j' unfolding k1 by blast
      qed
    qed
  qed
  then show ?thesis using quiet by blast
qed

text \<open>The state that \<open>infer\<close> returns is one on which a further round of the two loops
  changes nothing.\<close>

lemma infer_fixpoint:
  assumes "infer a = Some a'"
  shows "conclude_pass a' = (a', False) \<and>
         resolve_outer 0 (knowledge a') False = Some (knowledge a', False)"
  using assms
proof (induction rule: infer_induct)
  case (stop a kn)
  let ?st = "conclude_pass a"
  have "grows (knowledge (fst ?st)) (snd ?st) kn False"
    using resolve_outer_grows [OF stop] by simp
  then have kn: "kn = knowledge (fst ?st)" and f: "\<not> snd ?st"
    using grows_unflagged by blast+
  have "step_ok (a, False) ?st" by (rule conclude_pass_step_ok)
  then have st: "?st = (a, False)" using f unfolding step_ok_def by blast
  have a': "(fst ?st)\<lparr>knowledge := kn\<rparr> = a" unfolding kn st by simp
  show ?case unfolding a' using stop st kn by simp
next
  case (step a kn a')
  then show ?case by blast
qed

section \<open>Growth of the knowledge\<close>

lemma evolves_refl: "evolves a a"
  by (simp add: evolves_def)

lemma evolves_trans:
  assumes a: "evolves a1 a2" and b: "evolves a2 a3"
  shows "evolves a1 a3"
proof -
  have len: "length (knowledge a1) \<le> length (knowledge a2)"
    "length (knowledge a2) \<le> length (knowledge a3)"
    using a b unfolding evolves_def by blast+
  have "\<forall>k < length (knowledge a1). cells (knowledge a3 ! k) \<subseteq> cells (knowledge a1 ! k) \<and>
                                     count (knowledge a3 ! k) \<le> count (knowledge a1 ! k)"
  proof (intro allI impI)
    fix k assume k: "k < length (knowledge a1)"
    then have k2: "k < length (knowledge a2)" using len by simp
    have "cells (knowledge a2 ! k) \<subseteq> cells (knowledge a1 ! k)"
      "count (knowledge a2 ! k) \<le> count (knowledge a1 ! k)"
      using a k unfolding evolves_def by blast+
    moreover have "cells (knowledge a3 ! k) \<subseteq> cells (knowledge a2 ! k)"
      "count (knowledge a3 ! k) \<le> count (knowledge a2 ! k)"
      using b k2 unfolding evolves_def by blast+
    ultimately show "cells (knowledge a3 ! k) \<subseteq> cells (knowledge a1 ! k) \<and>
                     count (knowledge a3 ! k) \<le> count (knowledge a1 ! k)"
      by auto
  qed
  moreover have "height a3 = height a1" "width a3 = width a1" "moves_made a3 = moves_made a1"
    using a b unfolding evolves_def by simp_all
  moreover have "safes a1 \<subseteq> safes a3" "mines a1 \<subseteq> mines a3"
    using a b unfolding evolves_def by blast+
  ultimately show ?thesis using len unfolding evolves_def by simp
qed

lemma step_ok_evolves: "step_ok st st' \<Longrightarrow> evolves (fst st) (fst st')"
  unfolding step_ok_def evolves_def narrowed_def by simp

lemma grows_evolves:
  assumes "grows (knowledge a) f kn' f'"
  shows "evolves a (a\<lparr>knowledge := kn'\<rparr>)"
proof -
  obtain ys where "kn' = knowledge a @ ys" using assms by (rule growsD)
  then show ?thesis by (simp add: evolves_def nth_append)
qed

lemma round_evolves:
  assumes "resolve_outer 0 (knowledge (fst (conclude_pass a))) (snd (conclude_pass a)) = Some (kn, f)"
  shows "evolves a ((fst (conclude_pass a))\<lparr>knowledge := kn\<rparr>)"
proof -
  have "evolves a (fst (conclude_pass a))"
    using step_ok_evolves [OF conclude_pass_step_ok [of a]] by simp
  moreover have "evolves (fst (conclude_pass a)) ((fst (conclude_pass a))\<lparr>knowledge := kn\<rparr>)"
    using resolve_outer_grows [OF assms] grows_evolves by simp
  ultimately show ?thesis by (rule evolves_trans)
qed

lemma infer_evolves:
  assumes "infer a = Some a'"
  shows "evolves a a'"
  using assms
proof (induction rule: infer_induct)
  case (stop a kn)
  then show ?case by (rule round_evolves)
next
  case (step a kn a')
  have "evolves a ((fst (conclude_pass a))\<lparr>knowledge := kn\<rparr>)"
    using step(1) by (rule round_evolves)
  then show ?case using step(3) by (rule evolves_trans)
qed

section \<open>The state after an observation\<close>

text \<open>C9: on the state that \<open>add_knowledge\<close> returns, a further run of the propagation (the
  \<open>while\<close> loop) returns that same state; its first round marks nothing and appends nothing.\<close>

theorem propagation_idempotent:
  assumes "add_knowledge a c n = Some a'"
  shows "infer a' = Some a' \<and> conclude_pass a' = (a', False) \<and>
         resolve_outer 0 (knowledge a') False = Some (knowledge a', False)"
proof -
  obtain a3 where "infer a3 = Some a'"
    using assms unfolding add_knowledge_def Let_def by blast
  then have fp: "conclude_pass a' = (a', False)"
    "resolve_outer 0 (knowledge a') False = Some (knowledge a', False)"
    using infer_fixpoint by blast+
  have "infer a' = Some a'"
    using fp by (subst infer.simps) (simp add: Let_def)
  then show ?thesis using fp by simp
qed

text \<open>C4: in the state that \<open>add_knowledge\<close> returns, for any two sentences \<open>A\<close> and \<open>B\<close> of the
  knowledge with the cells of \<open>A\<close> among those of \<open>B\<close>, the sentence of the remaining cells of
  \<open>B\<close> with the difference of the counts is in the knowledge too, when it has a cell.\<close>

theorem subset_resolution_saturated:
  assumes run: "add_knowledge a c n = Some a'"
    and A: "A \<in> set (knowledge a')" and B: "B \<in> set (knowledge a')"
    and sub: "cells A \<subseteq> cells B" and fin: "finite (cells B)" and ne: "cells B - cells A \<noteq> {}"
  shows "\<lparr>cells = cells B - cells A, count = count B - count A\<rparr> \<in> set (knowledge a')"
proof -
  obtain a3 where "infer a3 = Some a'"
    using run unfolding add_knowledge_def Let_def by blast
  then have fp: "resolve_outer 0 (knowledge a') False = Some (knowledge a', False)"
    using infer_fixpoint by blast
  obtain i j where i: "i < length (knowledge a')" "knowledge a' ! i = A"
    and j: "j < length (knowledge a')" "knowledge a' ! j = B"
    using A B by (auto simp: in_set_conv_nth)
  have "saturated_at (knowledge a') i j"
    using resolve_outer_saturated [OF fp] i(1) j(1) by simp
  moreover have "i \<noteq> j" using i j ne by auto
  moreover have "card (cells B - cells A) \<noteq> 0" using fin ne by simp
  ultimately have "derived A B \<in> set (knowledge a')"
    using sub i j unfolding saturated_at_def by simp
  then show ?thesis by (simp add: derived_def)
qed

text \<open>C2 (as amended): a run of the second loop on a list without two equal sentences
  returns a list without two equal sentences: a derived sentence is appended only when no
  equal sentence is in the list.\<close>

theorem resolution_keeps_distinct:
  assumes "resolve_outer 0 kn f = Some r" and "distinct kn"
  shows "distinct (fst r)"
  using resolve_outer_grows [OF assms(1)] assms(2) by (auto elim: growsD)


theorem propagation_idempotent_witness:
  "add_knowledge \<lparr>height = 3, width = 3, moves_made = {(0, 0)}, mines = {}, safes = {(0, 0)},
          knowledge = [\<lparr>cells = {(0, 1), (1, 0), (1, 1)}, count = 1\<rparr>]\<rparr> (0, 1) 2 = Some \<lparr>height = 3, width = 3, moves_made = {(0, 1), (0, 0)}, mines = {},
          safes = {(0, 1), (0, 0)},
          knowledge = [\<lparr>cells = {(1, 0), (1, 1)}, count = 1\<rparr>,
                       \<lparr>cells = {(0, 2), (1, 0), (1, 1), (1, 2)}, count = 2\<rparr>,
                       \<lparr>cells = {(0, 2), (1, 2)}, count = 1\<rparr>]\<rparr> \<and>
   infer \<lparr>height = 3, width = 3, moves_made = {(0, 1), (0, 0)}, mines = {},
          safes = {(0, 1), (0, 0)},
          knowledge = [\<lparr>cells = {(1, 0), (1, 1)}, count = 1\<rparr>,
                       \<lparr>cells = {(0, 2), (1, 0), (1, 1), (1, 2)}, count = 2\<rparr>,
                       \<lparr>cells = {(0, 2), (1, 2)}, count = 1\<rparr>]\<rparr> = Some \<lparr>height = 3, width = 3, moves_made = {(0, 1), (0, 0)}, mines = {},
          safes = {(0, 1), (0, 0)},
          knowledge = [\<lparr>cells = {(1, 0), (1, 1)}, count = 1\<rparr>,
                       \<lparr>cells = {(0, 2), (1, 0), (1, 1), (1, 2)}, count = 2\<rparr>,
                       \<lparr>cells = {(0, 2), (1, 2)}, count = 1\<rparr>]\<rparr>"
proof -
  have e: "add_knowledge \<lparr>height = 3, width = 3, moves_made = {(0, 0)}, mines = {}, safes = {(0, 0)},
          knowledge = [\<lparr>cells = {(0, 1), (1, 0), (1, 1)}, count = 1\<rparr>]\<rparr> (0, 1) 2 = Some \<lparr>height = 3, width = 3, moves_made = {(0, 1), (0, 0)}, mines = {},
          safes = {(0, 1), (0, 0)},
          knowledge = [\<lparr>cells = {(1, 0), (1, 1)}, count = 1\<rparr>,
                       \<lparr>cells = {(0, 2), (1, 0), (1, 1), (1, 2)}, count = 2\<rparr>,
                       \<lparr>cells = {(0, 2), (1, 2)}, count = 1\<rparr>]\<rparr>"
    by code_simp
  show ?thesis using e propagation_idempotent [OF e] by simp
qed

theorem subset_resolution_saturated_witness:
  "add_knowledge \<lparr>height = 3, width = 3, moves_made = {(0, 0)}, mines = {}, safes = {(0, 0)},
          knowledge = [\<lparr>cells = {(0, 1), (1, 0), (1, 1)}, count = 1\<rparr>]\<rparr> (0, 1) 2 = Some \<lparr>height = 3, width = 3, moves_made = {(0, 1), (0, 0)}, mines = {},
          safes = {(0, 1), (0, 0)},
          knowledge = [\<lparr>cells = {(1, 0), (1, 1)}, count = 1\<rparr>,
                       \<lparr>cells = {(0, 2), (1, 0), (1, 1), (1, 2)}, count = 2\<rparr>,
                       \<lparr>cells = {(0, 2), (1, 2)}, count = 1\<rparr>]\<rparr> \<and>
   \<lparr>cells = {(0, 2), (1, 2)}, count = 1\<rparr> \<in> set (knowledge \<lparr>height = 3, width = 3, moves_made = {(0, 1), (0, 0)}, mines = {},
          safes = {(0, 1), (0, 0)},
          knowledge = [\<lparr>cells = {(1, 0), (1, 1)}, count = 1\<rparr>,
                       \<lparr>cells = {(0, 2), (1, 0), (1, 1), (1, 2)}, count = 2\<rparr>,
                       \<lparr>cells = {(0, 2), (1, 2)}, count = 1\<rparr>]\<rparr>)"
proof -
  have e: "add_knowledge \<lparr>height = 3, width = 3, moves_made = {(0, 0)}, mines = {}, safes = {(0, 0)},
          knowledge = [\<lparr>cells = {(0, 1), (1, 0), (1, 1)}, count = 1\<rparr>]\<rparr> (0, 1) 2 = Some \<lparr>height = 3, width = 3, moves_made = {(0, 1), (0, 0)}, mines = {},
          safes = {(0, 1), (0, 0)},
          knowledge = [\<lparr>cells = {(1, 0), (1, 1)}, count = 1\<rparr>,
                       \<lparr>cells = {(0, 2), (1, 0), (1, 1), (1, 2)}, count = 2\<rparr>,
                       \<lparr>cells = {(0, 2), (1, 2)}, count = 1\<rparr>]\<rparr>"
    by code_simp
  have d: "{(0, 2), (1, 0), (1, 1), (1, 2)} - {(1, 0), (1, 1)} = {(0, 2), (1, 2) :: cell}"
    by auto
  show ?thesis
    using e subset_resolution_saturated [OF e,
        of "\<lparr>cells = {(1, 0), (1, 1)}, count = 1\<rparr>"
           "\<lparr>cells = {(0, 2), (1, 0), (1, 1), (1, 2)}, count = 2\<rparr>"]
    by (simp add: d)
qed

theorem resolution_keeps_distinct_witness:
  "resolve_outer 0 [\<lparr>cells = {(1, 0), (1, 1)}, count = 1\<rparr>,
                    \<lparr>cells = {(0, 2), (1, 0), (1, 1), (1, 2)}, count = 2\<rparr>] False =
     Some ([\<lparr>cells = {(1, 0), (1, 1)}, count = 1\<rparr>,
            \<lparr>cells = {(0, 2), (1, 0), (1, 1), (1, 2)}, count = 2\<rparr>,
            \<lparr>cells = {(0, 2), (1, 2)}, count = 1\<rparr>], True) \<and>
   distinct [\<lparr>cells = {(1, 0), (1, 1)}, count = 1\<rparr>,
             \<lparr>cells = {(0, 2), (1, 0), (1, 1), (1, 2)}, count = (2::int)\<rparr>] \<and>
   distinct [\<lparr>cells = {(1, 0), (1, 1)}, count = 1\<rparr>,
             \<lparr>cells = {(0, 2), (1, 0), (1, 1), (1, 2)}, count = 2\<rparr>,
             \<lparr>cells = {(0, 2), (1, 2)}, count = (1::int)\<rparr>]"
proof -
  have e: "resolve_outer 0 [\<lparr>cells = {(1, 0), (1, 1)}, count = 1\<rparr>,
                    \<lparr>cells = {(0, 2), (1, 0), (1, 1), (1, 2)}, count = 2\<rparr>] False =
     Some ([\<lparr>cells = {(1, 0), (1, 1)}, count = 1\<rparr>,
            \<lparr>cells = {(0, 2), (1, 0), (1, 1), (1, 2)}, count = 2\<rparr>,
            \<lparr>cells = {(0, 2), (1, 2)}, count = 1\<rparr>], True)"
    by code_simp
  have d: "distinct [\<lparr>cells = {(1, 0), (1, 1)}, count = 1\<rparr>,
             \<lparr>cells = {(0, 2), (1, 0), (1, 1), (1, 2)}, count = (2::int)\<rparr>]"
    by simp
  show ?thesis using e d resolution_keeps_distinct [OF e d] by simp
qed

text \<open>C2 (as stated) fails: on a grid of height 1 and width 2, probing \<open>(0,0)\<close> and then
  \<open>(0,1)\<close>, both with count 0, leaves two equal sentences in the knowledge. The sentence
  of the second probe is appended without a comparison with the earlier ones.\<close>

theorem duplicate_sentences_counterexample:
  "add_knowledge (init_ai 1 2) (0, 0) 0 =
     Some \<lparr>height = 1, width = 2, moves_made = {(0, 0)}, mines = {}, safes = {(0, 1), (0, 0)},
            knowledge = [\<lparr>cells = {}, count = 0\<rparr>]\<rparr> \<and>
   add_knowledge \<lparr>height = 1, width = 2, moves_made = {(0, 0)}, mines = {},
                   safes = {(0, 1), (0, 0)}, knowledge = [\<lparr>cells = {}, count = 0\<rparr>]\<rparr> (0, 1) 0 =
     Some \<lparr>height = 1, width = 2, moves_made = {(0, 1), (0, 0)}, mines = {},
            safes = {(0, 1), (0, 0)},
            knowledge = [\<lparr>cells = {}, count = 0\<rparr>, \<lparr>cells = {}, count = 0\<rparr>]\<rparr> \<and>
   \<not> distinct (knowledge \<lparr>height = 1, width = 2, moves_made = {(0, 1), (0, 0)}, mines = {},
            safes = {(0, 1), (0, 0)},
            knowledge = [\<lparr>cells = {}, count = 0\<rparr>, \<lparr>cells = {}, count = 0\<rparr>]\<rparr>)"
proof -
  have 1: "add_knowledge (init_ai 1 2) (0, 0) 0 =
     Some \<lparr>height = 1, width = 2, moves_made = {(0, 0)}, mines = {}, safes = {(0, 1), (0, 0)},
            knowledge = [\<lparr>cells = {}, count = 0\<rparr>]\<rparr>"
    by code_simp
  have 2: "add_knowledge \<lparr>height = 1, width = 2, moves_made = {(0, 0)}, mines = {},
                   safes = {(0, 1), (0, 0)}, knowledge = [\<lparr>cells = {}, count = 0\<rparr>]\<rparr> (0, 1) 0 =
     Some \<lparr>height = 1, width = 2, moves_made = {(0, 1), (0, 0)}, mines = {},
            safes = {(0, 1), (0, 0)},
            knowledge = [\<lparr>cells = {}, count = 0\<rparr>, \<lparr>cells = {}, count = 0\<rparr>]\<rparr>"
    by code_simp
  show ?thesis using 1 2 by simp
qed

text \<open>C10: an observation drops no sentence: the knowledge gets longer, every sentence that
  was there is still at its position with a subset of its cells and a count not larger, and
  the position after them holds the sentence built for the probe (narrowed like the others),
  whether or not that sentence has any cell.\<close>

theorem knowledge_append_only:
  assumes run: "add_knowledge a c n = Some a'"
  shows "length (knowledge a) < length (knowledge a') \<and>
         (\<forall>k < length (knowledge a).
            cells (knowledge a' ! k) \<subseteq> cells (knowledge a ! k) \<and>
            count (knowledge a' ! k) \<le> count (knowledge a ! k)) \<and>
         cells (knowledge a' ! length (knowledge a)) \<subseteq>
           fst (scan_neighbours (mark_safe (a\<lparr>moves_made := insert c (moves_made a)\<rparr>) c) c n) \<and>
         count (knowledge a' ! length (knowledge a)) \<le>
           snd (scan_neighbours (mark_safe (a\<lparr>moves_made := insert c (moves_made a)\<rparr>) c) c n)"
proof -
  define a2 where "a2 = mark_safe (a\<lparr>moves_made := insert c (moves_made a)\<rparr>) c"
  define new where "new = scan_neighbours a2 c n"
  define a3 where "a3 = a2\<lparr>knowledge := knowledge a2 @ [\<lparr>cells = fst new, count = snd new\<rparr>]\<rparr>"
  have "infer a3 = Some a'"
    using run unfolding add_knowledge_def Let_def a3_def new_def a2_def .
  then have ev: "evolves a3 a'" by (rule infer_evolves)
  have len2: "length (knowledge a2) = length (knowledge a)"
    by (simp add: a2_def mark_safe_def)
  have len3: "length (knowledge a3) = length (knowledge a) + 1"
    by (simp add: a3_def len2)
  have old: "\<And>k. k < length (knowledge a) \<Longrightarrow>
      cells (knowledge a3 ! k) \<subseteq> cells (knowledge a ! k) \<and>
      count (knowledge a3 ! k) = count (knowledge a ! k)"
    by (auto simp: a3_def a2_def mark_safe_def nth_append sentence_mark_safe_eq)
  have last: "knowledge a3 ! length (knowledge a) = \<lparr>cells = fst new, count = snd new\<rparr>"
    using len2 by (simp add: a3_def nth_append)
  have step: "\<And>k. k < length (knowledge a3) \<Longrightarrow>
      cells (knowledge a' ! k) \<subseteq> cells (knowledge a3 ! k) \<and>
      count (knowledge a' ! k) \<le> count (knowledge a3 ! k)"
    using ev unfolding evolves_def by blast
  have 1: "length (knowledge a) < length (knowledge a')"
    using ev len3 unfolding evolves_def by simp
  have 2: "\<forall>k < length (knowledge a).
            cells (knowledge a' ! k) \<subseteq> cells (knowledge a ! k) \<and>
            count (knowledge a' ! k) \<le> count (knowledge a ! k)"
  proof (intro allI impI)
    fix k assume k: "k < length (knowledge a)"
    then have "k < length (knowledge a3)" using len3 by simp
    from step [OF this] old [OF k]
    show "cells (knowledge a' ! k) \<subseteq> cells (knowledge a ! k) \<and>
          count (knowledge a' ! k) \<le> count (knowledge a ! k)" by auto
  qed
  have "length (knowledge a) < length (knowledge a3)" using len3 by simp
  from step [OF this] have 3: "cells (knowledge a' ! length (knowledge a)) \<subseteq> fst new"
    "count (knowledge a' ! length (knowledge a)) \<le> snd new"
    unfolding last by simp_all
  show ?thesis using 1 2 3 unfolding new_def a2_def by blast
qed

theorem knowledge_append_only_witness:
  "add_knowledge \<lparr>height = 1, width = 2, moves_made = {(0, 0)}, mines = {},
                   safes = {(0, 1), (0, 0)}, knowledge = [\<lparr>cells = {}, count = 0\<rparr>]\<rparr> (0, 1) 0 =
     Some \<lparr>height = 1, width = 2, moves_made = {(0, 1), (0, 0)}, mines = {},
            safes = {(0, 1), (0, 0)},
            knowledge = [\<lparr>cells = {}, count = 0\<rparr>, \<lparr>cells = {}, count = 0\<rparr>]\<rparr> \<and>
   length (knowledge \<lparr>height = 1, width = 2, moves_made = {(0, 0)}, mines = {},
                   safes = {(0, 1), (0, 0)}, knowledge = [\<lparr>cells = {}, count = 0\<rparr>]\<rparr>)
     < length (knowledge \<lparr>height = 1, width = 2, moves_made = {(0, 1), (0, 0)}, mines = {},
            safes = {(0, 1), (0, 0)},
            knowledge = [\<lparr>cells = {}, count = 0\<rparr>, \<lparr>cells = {}, count = 0\<rparr>]\<rparr>) \<and>
   cells (knowledge \<lparr>height = 1, width = 2, moves_made = {(0, 1), (0, 0)}, mines = {},
            safes = {(0, 1), (0, 0)},
            knowledge = [\<lparr>cells = {}, count = 0\<rparr>, \<lparr>cells = {}, count = 0\<rparr>]\<rparr> ! 1) = {}"
proof -
  have e: "add_knowledge \<lparr>height = 1, width = 2, moves_made = {(0, 0)}, mines = {},
                   safes = {(0, 1), (0, 0)}, knowledge = [\<lparr>cells = {}, count = 0\<rparr>]\<rparr> (0, 1) 0 =
     Some \<lparr>height = 1, width = 2, moves_made = {(0, 1), (0, 0)}, mines = {},
            safes = {(0, 1), (0, 0)},
            knowledge = [\<lparr>cells = {}, count = 0\<rparr>, \<lparr>cells = {}, count = 0\<rparr>]\<rparr>"
    by code_simp
  show ?thesis using e knowledge_append_only [OF e] by simp
qed

section \<open>Termination of the loops\<close>

lemma card_Diff_append_less:
  assumes "finite A" "d \<in> A" "d \<notin> set kn"
  shows "card (A - set (kn @ [d])) < card (A - set kn)"
proof -
  have "A - set (kn @ [d]) \<subset> A - set kn" using assms by auto
  then show ?thesis using assms(1) by (intro psubset_card_mono) auto
qed

lemma resolve_inner_terminates:
  assumes A: "finite A" "closed_under A"
  shows "set kn \<subseteq> A \<Longrightarrow> i < length kn \<Longrightarrow> \<exists>r. resolve_inner i j kn f = Some r"
proof (induction "card (A - set kn)" arbitrary: kn j f rule: less_induct)
  case less
  note outer = less.hyps and sub = less.prems(1) and i = less.prems(2)
  show ?case
  proof (induction "length kn - j" arbitrary: j f rule: less_induct)
    case less
    note inner = less.hyps
    show ?case
    proof (cases "j < length kn")
      case False
      then show ?thesis by (subst resolve_inner.simps) simp
    next
      case True
      note j = this
      let ?d = "derived (kn ! i) (kn ! j)"
      let ?C = "cells (kn ! i) \<subseteq> cells (kn ! j) \<and>
                card (cells (kn ! j) - cells (kn ! i)) \<noteq> 0 \<and> ?d \<notin> set kn"
      have next_same: "\<exists>r. resolve_inner i (j + 1) kn f = Some r"
        using j by (intro inner) simp
      show ?thesis
      proof (cases "i \<noteq> j \<and> ?C")
        case False
        then have "resolve_inner i j kn f = resolve_inner i (j + 1) kn f"
          using j by (subst resolve_inner.simps) auto
        then show ?thesis using next_same by simp
      next
        case True
        have "kn ! i \<in> A" "kn ! j \<in> A" using sub i j nth_mem by blast+
        then have dA: "?d \<in> A" using A(2) True unfolding closed_under_def by blast
        have "card (A - set (kn @ [?d])) < card (A - set kn)"
          using A(1) dA True by (intro card_Diff_append_less) simp_all
        moreover have "set (kn @ [?d]) \<subseteq> A" using sub dA by simp
        moreover have "i < length (kn @ [?d])" using i by simp
        ultimately have "\<exists>r. resolve_inner i (j + 1) (kn @ [?d]) True = Some r"
          by (rule outer)
        moreover have "resolve_inner i j kn f = resolve_inner i (j + 1) (kn @ [?d]) True"
          using j True by (subst resolve_inner.simps) simp
        ultimately show ?thesis by simp
      qed
    qed
  qed
qed

lemma resolve_outer_terminates:
  assumes A: "finite A" "closed_under A"
  shows "set kn \<subseteq> A \<Longrightarrow> \<exists>r. resolve_outer i kn f = Some r"
proof (induction "card (A - set kn)" arbitrary: kn i f rule: less_induct)
  case less
  note outer = less.hyps and sub = less.prems(1)
  show ?case
  proof (induction "length kn - i" arbitrary: i f rule: less_induct)
    case less
    note inner = less.hyps
    show ?case
    proof (cases "i < length kn")
      case False
      then show ?thesis by (subst resolve_outer.simps) simp
    next
      case True
      note i = this
      obtain r1 where r1: "resolve_inner i 0 kn f = Some r1"
        using resolve_inner_terminates [OF A sub i] by blast
      have unfold: "resolve_outer i kn f = resolve_outer (i + 1) (fst r1) (snd r1)"
        using i r1 by (subst resolve_outer.simps) simp
      have sub1: "set (fst r1) \<subseteq> A"
        using resolve_inner_closed [OF r1 A(2) sub i] .
      obtain ys where ys: "fst r1 = kn @ ys" "ys \<noteq> [] \<longrightarrow> \<not> set ys \<subseteq> set kn"
        using resolve_inner_grows [OF r1] by (rule growsD)
      show ?thesis
      proof (cases "ys = []")
        case True
        then have "fst r1 = kn" using ys(1) by simp
        moreover have "\<exists>r. resolve_outer (i + 1) kn (snd r1) = Some r"
          using i by (intro inner) simp
        ultimately show ?thesis using unfold by simp
      next
        case False
        then have "set kn \<subset> set (fst r1)" using ys by auto
        then have "A - set (fst r1) \<subset> A - set kn" using sub1 by blast
        then have "card (A - set (fst r1)) < card (A - set kn)"
          using A(1) by (intro psubset_card_mono) auto
        then have "\<exists>r. resolve_outer (i + 1) (fst r1) (snd r1) = Some r"
          using sub1 by (rule outer)
        then show ?thesis using unfold by simp
      qed
    qed
  qed
qed

lemma finite_allowed: "finite U \<Longrightarrow> finite (allowed M U)"
  by (simp add: allowed_def)

lemma allowed_iff:
  "s \<in> allowed M U \<longleftrightarrow> cells s \<subseteq> U \<and> count s = int (card (cells s \<inter> M))"
  unfolding allowed_def by (cases s) auto

lemma closed_allowed:
  assumes "finite U"
  shows "closed_under (allowed M U)"
  unfolding closed_under_def
proof (intro ballI impI)
  fix s1 s2 assume s1: "s1 \<in> allowed M U" and s2: "s2 \<in> allowed M U"
    and sub: "cells s1 \<subseteq> cells s2"
  have fin: "finite (cells s2 \<inter> M)"
    using s2 assms by (meson allowed_iff finite_Int finite_subset)
  have sub': "cells s1 \<inter> M \<subseteq> cells s2 \<inter> M" using sub by auto
  have "(cells s2 - cells s1) \<inter> M = (cells s2 \<inter> M) - (cells s1 \<inter> M)" by auto
  then have "card ((cells s2 - cells s1) \<inter> M) = card (cells s2 \<inter> M) - card (cells s1 \<inter> M)"
    using card_Diff_subset [OF finite_subset [OF sub' fin] sub'] by simp
  moreover have "card (cells s1 \<inter> M) \<le> card (cells s2 \<inter> M)"
    using sub' fin by (rule card_mono [rotated])
  ultimately have "count s2 - count s1 = int (card ((cells s2 - cells s1) \<inter> M))"
    using s1 s2 by (simp add: allowed_iff)
  moreover have "cells s2 - cells s1 \<subseteq> U" using s2 by (auto simp: allowed_iff)
  ultimately show "derived s1 s2 \<in> allowed M U"
    by (simp add: allowed_iff derived_def)
qed

lemma true_knowledge_allowed:
  "list_all (true_of M) kn \<Longrightarrow> set kn \<subseteq> allowed M (unknown kn)"
  by (auto simp: list_all_iff allowed_iff true_of_def unknown_def)

lemma true_knowledge_finite: "list_all (true_of M) kn \<Longrightarrow> finite (unknown kn)"
  by (auto simp: list_all_iff true_of_def unknown_def)

lemma allowed_true_knowledge:
  assumes "finite U" "set kn \<subseteq> allowed M U"
  shows "list_all (true_of M) kn"
  unfolding list_all_iff true_of_def
  using assms by (meson allowed_iff finite_subset subsetD)

lemma allowed_unknown: "set kn \<subseteq> allowed M U \<Longrightarrow> unknown kn \<subseteq> U"
  unfolding unknown_def using allowed_iff by blast

text \<open>One round of the \<open>while\<close> body on a consistent knowledge base.\<close>

lemma round_consistent:
  assumes c: "consistent M a"
    and r: "resolve_outer 0 (knowledge (fst (conclude_pass a))) (snd (conclude_pass a)) = Some (kn, f)"
  shows "consistent M ((fst (conclude_pass a))\<lparr>knowledge := kn\<rparr>)"
    and "unknown kn = unknown (knowledge (fst (conclude_pass a)))"
    and "set kn \<subseteq> allowed M (unknown (knowledge (fst (conclude_pass a))))"
proof -
  let ?a1 = "fst (conclude_pass a)"
  let ?U = "unknown (knowledge ?a1)"
  have c1: "consistent M ?a1" using c by (rule conclude_pass_consistent)
  then have t1: "list_all (true_of M) (knowledge ?a1)" by (simp add: consistent_def)
  have fin: "finite ?U" using t1 by (rule true_knowledge_finite)
  have "set (fst (kn, f)) \<subseteq> allowed M ?U"
    using r closed_allowed [OF fin] true_knowledge_allowed [OF t1]
    by (rule resolve_outer_closed)
  then show sub: "set kn \<subseteq> allowed M ?U" by simp
  then have "list_all (true_of M) kn" using fin by (intro allowed_true_knowledge)
  then show "consistent M (?a1\<lparr>knowledge := kn\<rparr>)"
    using c1 by (simp add: consistent_def)
  obtain ys where "kn = knowledge ?a1 @ ys"
    using resolve_outer_grows [OF r] by (auto elim: growsD)
  then have "?U \<subseteq> unknown kn" by (auto simp: unknown_def)
  then show "unknown kn = ?U" using allowed_unknown [OF sub] by blast
qed

lemma infer_consistent:
  assumes "infer a = Some a'"
  shows "consistent M a \<longrightarrow> consistent M a'"
  using assms
proof (induction rule: infer_induct)
  case (stop a kn)
  then show ?case using round_consistent(1) by blast
next
  case (step a kn a')
  then show ?case using round_consistent(1) by blast
qed

lemma infer_terminates:
  assumes "consistent M a"
  shows "\<exists>a'. infer a = Some a'"
proof -
  define m where "m = (\<lambda>a::ai. (card (unknown (knowledge a)),
                   card (allowed M (unknown (knowledge a)) - set (knowledge a))))"
  have wf: "wf (inv_image (less_than <*lex*> less_than) m)"
    by (intro wf_inv_image wf_lex_prod wf_less_than)
  have "consistent M a \<longrightarrow> (\<exists>a'. infer a = Some a')"
    using wf
  proof (induction a rule: wf_induct_rule)
    case (less a)
    note IH = less.IH
    show ?case
    proof
      assume c: "consistent M a"
      let ?st = "conclude_pass a"
      let ?a1 = "fst ?st"
      let ?U = "unknown (knowledge a)"
      let ?U1 = "unknown (knowledge ?a1)"
      have c1: "consistent M ?a1" using c by (rule conclude_pass_consistent)
      then have t1: "list_all (true_of M) (knowledge ?a1)" by (simp add: consistent_def)
      have fin1: "finite ?U1" using t1 by (rule true_knowledge_finite)
      have "list_all (true_of M) (knowledge a)" using c by (simp add: consistent_def)
      then have finU: "finite ?U" by (rule true_knowledge_finite)
      obtain r where r0: "resolve_outer 0 (knowledge ?a1) (snd ?st) = Some r"
        using resolve_outer_terminates [OF finite_allowed [OF fin1] closed_allowed [OF fin1]
            true_knowledge_allowed [OF t1]] by blast
      obtain kn f where r: "resolve_outer 0 (knowledge ?a1) (snd ?st) = Some (kn, f)"
        using r0 by (cases r) simp
      let ?a2 = "?a1\<lparr>knowledge := kn\<rparr>"
      show "\<exists>a'. infer a = Some a'"
      proof (cases f)
        case False
        then have "infer a = Some ?a2"
          using r by (subst infer.simps) (simp add: Let_def)
        then show ?thesis by blast
      next
        case True
        have unfold: "infer a = infer ?a2"
          using r True by (subst infer.simps) (simp add: Let_def)
        have c2: "consistent M ?a2" and u2: "unknown kn = ?U1"
          and sub2: "set kn \<subseteq> allowed M ?U1"
          using round_consistent [OF c r] by blast+
        have ok: "step_ok (a, False) ?st" by (rule conclude_pass_step_ok)
        have dec: "(?a2, a) \<in> inv_image (less_than <*lex*> less_than) m"
        proof (cases "snd ?st")
          case True
          then have "?U1 \<subset> ?U" using ok unfolding step_ok_def by simp
          then have "card ?U1 < card ?U" using finU by (rule psubset_card_mono [rotated])
          then show ?thesis using u2 by (simp add: m_def)
        next
          case False
          then have st: "?st = (a, False)" using ok unfolding step_ok_def by blast
          then have a1: "?a1 = a" by simp
          have "grows (knowledge a) False kn True"
            using resolve_outer_grows [OF r] True unfolding st by simp
          then obtain ys where ys: "kn = knowledge a @ ys" "ys \<noteq> []" "\<not> set ys \<subseteq> set (knowledge a)"
            unfolding grows_def by blast
          then have "set (knowledge a) \<subset> set kn" by auto
          then have "allowed M ?U - set kn \<subset> allowed M ?U - set (knowledge a)"
            using sub2 unfolding a1 by blast
          then have "card (allowed M ?U - set kn) < card (allowed M ?U - set (knowledge a))"
            using finite_allowed [OF finU] by (intro psubset_card_mono) auto
          then show ?thesis using u2 unfolding a1 by (simp add: m_def)
        qed
        have "\<exists>a'. infer ?a2 = Some a'"
          using IH [OF dec] c2 by blast
        then show ?thesis using unfold by simp
      qed
    qed
  qed
  then show ?thesis using assms by blast
qed

section \<open>Observations with the counts of the board\<close>

lemma fold_count_cell:
  "distinct xs \<Longrightarrow>
   fold (count_cell g c) xs n =
     n + int (card {ij \<in> set xs. ij \<noteq> c \<and> ij \<in> all_cells (game_height g) (game_width g) \<and>
                      ij \<in> game_mines g})"
proof (induction xs arbitrary: n)
  case Nil
  show ?case by simp
next
  case (Cons x xs)
  let ?G = "all_cells (game_height g) (game_width g)"
  let ?S = "{ij \<in> set xs. ij \<noteq> c \<and> ij \<in> ?G \<and> ij \<in> game_mines g}"
  have inG: "x \<in> ?G \<longleftrightarrow> 0 \<le> fst x \<and> fst x < game_height g \<and> 0 \<le> snd x \<and> snd x < game_width g"
    by (cases x) (auto simp: all_cells_def)
  have fin: "finite ?S" and notin: "x \<notin> ?S" using Cons.prems by auto
  show ?case
  proof (cases "x \<noteq> c \<and> x \<in> ?G \<and> x \<in> game_mines g")
    case True
    then have step: "count_cell g c x n = n + 1" using inG by (simp add: count_cell_def)
    have "{ij \<in> set (x # xs). ij \<noteq> c \<and> ij \<in> ?G \<and> ij \<in> game_mines g} = insert x ?S"
      using True by auto
    then have "card {ij \<in> set (x # xs). ij \<noteq> c \<and> ij \<in> ?G \<and> ij \<in> game_mines g} = Suc (card ?S)"
      using fin notin by simp
    then show ?thesis using Cons.prems Cons.IH [of "n + 1"] step by simp
  next
    case False
    then have step: "count_cell g c x n = n" using inG by (auto simp: count_cell_def)
    have "{ij \<in> set (x # xs). ij \<noteq> c \<and> ij \<in> ?G \<and> ij \<in> game_mines g} = ?S"
      using False by auto
    then show ?thesis using Cons.prems Cons.IH [of n] step by simp
  qed
qed

lemma nearby_mines_eq:
  "nearby_mines g c = int (card (neighbours (game_height g) (game_width g) c \<inter> game_mines g))"
proof -
  let ?B = "List.product [fst c - 1 .. fst c + 1] [snd c - 1 .. snd c + 1]"
  have "nearby_mines g c = fold (count_cell g c) ?B 0"
    unfolding nearby_mines_def by (rule fold_nested)
  also have "\<dots> = 0 + int (card {ij \<in> set ?B. ij \<noteq> c \<and>
       ij \<in> all_cells (game_height g) (game_width g) \<and> ij \<in> game_mines g})"
    by (rule fold_count_cell [OF block_distinct])
  also have "{ij \<in> set ?B. ij \<noteq> c \<and> ij \<in> all_cells (game_height g) (game_width g) \<and>
                ij \<in> game_mines g}
      = neighbours (game_height g) (game_width g) c \<inter> game_mines g"
    unfolding block_set neighbours_def by blast
  finally show ?thesis by simp
qed

lemma finite_neighbours: "finite (neighbours h w c)"
  by (simp add: neighbours_def)

text \<open>The state on which \<open>add_knowledge\<close> starts its \<open>while\<close> loop is consistent when the
  probed cell is not a mine and the count is the number of mines around it.\<close>

lemma observation_consistent:
  assumes c: "consistent M a" and safe: "x \<notin> M"
    and n: "n = int (card (neighbours (height a) (width a) x \<inter> M))"
  shows "consistent M
    ((mark_safe (a\<lparr>moves_made := insert x (moves_made a)\<rparr>) x)
       \<lparr>knowledge := knowledge (mark_safe (a\<lparr>moves_made := insert x (moves_made a)\<rparr>) x) @
          [\<lparr>cells = fst (scan_neighbours (mark_safe (a\<lparr>moves_made := insert x (moves_made a)\<rparr>) x) x n),
            count = snd (scan_neighbours (mark_safe (a\<lparr>moves_made := insert x (moves_made a)\<rparr>) x) x n)\<rparr>]\<rparr>)"
proof -
  define a2 where "a2 = mark_safe (a\<lparr>moves_made := insert x (moves_made a)\<rparr>) x"
  let ?N = "neighbours (height a) (width a) x"
  have hw: "height a2 = height a" "width a2 = width a"
    and sets: "moves_made a2 = insert x (moves_made a)" "safes a2 = insert x (safes a)"
      "mines a2 = mines a"
    and kn2: "knowledge a2 = map (\<lambda>s. s\<lparr>cells := cells s - {x}\<rparr>) (knowledge a)"
    by (simp_all add: a2_def mark_safe_def sentence_mark_safe_eq)
  have inv: "safes a \<inter> M = {}" "mines a \<subseteq> M" "moves_made a \<subseteq> safes a"
    and tr: "list_all (true_of M) (knowledge a)"
    using c by (simp_all add: consistent_def)
  have "\<And>s. true_of M s \<Longrightarrow> true_of M (s\<lparr>cells := cells s - {x}\<rparr>)"
    using safe by (intro true_of_remove_safe) simp_all
  then have tr2: "list_all (true_of M) (knowledge a2)"
    using tr unfolding kn2 by (simp add: list_all_iff)
  let ?C = "{rc \<in> ?N. rc \<notin> moves_made a2 \<and> rc \<notin> safes a2 \<and> rc \<notin> mines a2}"
  have scan: "scan_neighbours a2 x n = (?C, n - int (card (?N \<inter> mines a2)))"
    unfolding scan_neighbours_eq hw ..
  have finN: "finite (?N \<inter> M)" using finite_neighbours by simp
  have sub: "?N \<inter> mines a \<subseteq> ?N \<inter> M" using inv(2) by auto
  have "?C \<inter> M = (?N \<inter> M) - (?N \<inter> mines a)"
    unfolding sets using inv safe by auto
  then have "card (?C \<inter> M) = card (?N \<inter> M) - card (?N \<inter> mines a)"
    using card_Diff_subset [OF finite_subset [OF sub finN] sub] by simp
  moreover have "card (?N \<inter> mines a) \<le> card (?N \<inter> M)"
    using sub finN by (rule card_mono [rotated])
  ultimately have cnt: "n - int (card (?N \<inter> mines a2)) = int (card (?C \<inter> M))"
    unfolding n sets by simp
  have "finite ?C" using finite_neighbours by simp
  then have new: "true_of M \<lparr>cells = fst (scan_neighbours a2 x n),
                              count = snd (scan_neighbours a2 x n)\<rparr>"
    unfolding scan using cnt by (simp add: true_of_def)
  have "consistent M (a2\<lparr>knowledge := knowledge a2 @
          [\<lparr>cells = fst (scan_neighbours a2 x n), count = snd (scan_neighbours a2 x n)\<rparr>]\<rparr>)"
    unfolding consistent_def using tr2 new inv safe sets by auto
  then show ?thesis unfolding a2_def .
qed

lemma add_knowledge_consistent:
  assumes c: "consistent M a" and safe: "x \<notin> M"
    and n: "n = int (card (neighbours (height a) (width a) x \<inter> M))"
  shows "\<exists>a'. add_knowledge a x n = Some a' \<and> consistent M a' \<and>
              height a' = height a \<and> width a' = width a"
proof -
  let ?a2 = "mark_safe (a\<lparr>moves_made := insert x (moves_made a)\<rparr>) x"
  let ?a3 = "?a2\<lparr>knowledge := knowledge ?a2 @
          [\<lparr>cells = fst (scan_neighbours ?a2 x n), count = snd (scan_neighbours ?a2 x n)\<rparr>]\<rparr>"
  have c3: "consistent M ?a3" using c safe n by (rule observation_consistent)
  then obtain a' where a': "infer ?a3 = Some a'" using infer_terminates by blast
  then have "consistent M a'" using infer_consistent c3 by blast
  moreover have "height a' = height a" "width a' = width a"
    using infer_evolves [OF a'] unfolding evolves_def by (simp_all add: mark_safe_def)
  moreover have "add_knowledge a x n = Some a'"
    using a' unfolding add_knowledge_def Let_def .
  ultimately show ?thesis by blast
qed

section \<open>A run that does not return\<close>

text \<open>With a sentence without cells and with a positive count \<open>k\<close> at position 0, and a
  sentence with one cell at position \<open>j\<close>, the last of the list, the inner loop for
  \<open>i = 0\<close> appends the same cell with a count smaller by \<open>k\<close>, moves to it, and goes on
  like this for ever.\<close>

lemma resolve_inner_diverges:
  assumes k: "0 < k"
    and inv: "1 \<le> j" "length kn = j + 1" "kn ! 0 = \<lparr>cells = {}, count = k\<rparr>"
      "cells (kn ! j) = {q}"
      "\<forall>s \<in> set kn. s = \<lparr>cells = {}, count = k\<rparr> \<or> count (kn ! j) \<le> count s"
  shows "resolve_inner 0 j kn f = None"
proof (rule ccontr)
  let ?E = "\<lparr>cells = {}, count = k\<rparr>"
  let ?Inv = "\<lambda>j kn. 1 \<le> j \<and> length kn = j + 1 \<and> kn ! 0 = ?E \<and> cells (kn ! j) = {q} \<and>
                 (\<forall>s \<in> set kn. s = ?E \<or> count (kn ! j) \<le> count s)"
  assume "resolve_inner 0 j kn f \<noteq> None"
  then obtain r where run: "resolve_inner 0 j kn f = Some r" by blast
  have fresh: "\<And>j kn. ?Inv j kn \<Longrightarrow> derived (kn ! 0) (kn ! j) \<notin> set kn"
  proof
    fix j kn assume h: "?Inv j kn" and mem: "derived (kn ! 0) (kn ! j) \<in> set kn"
    have d: "derived (kn ! 0) (kn ! j) = \<lparr>cells = {q}, count = count (kn ! j) - k\<rparr>"
      using h by (simp add: derived_def)
    have "derived (kn ! 0) (kn ! j) \<noteq> ?E" unfolding d by simp
    then have "count (kn ! j) \<le> count (derived (kn ! 0) (kn ! j))" using h mem by blast
    then show False unfolding d using k by simp
  qed
  have "\<not> ?Inv j kn"
    using run
  proof (induction rule: resolve_inner_induct)
    case (stop j kn f)
    then show ?case by simp
  next
    case (skip j kn f r)
    show ?case
    proof
      assume h: "?Inv j kn"
      then have "cells (kn ! 0) \<subseteq> cells (kn ! j)" "card (cells (kn ! j) - cells (kn ! 0)) \<noteq> 0"
        "0 \<noteq> j"
        by simp_all
      then show False using skip(2) fresh [OF h] by blast
    qed
  next
    case (add j kn f r)
    show ?case
    proof
      assume h: "?Inv j kn"
      let ?d = "derived (kn ! 0) (kn ! j)"
      have d: "?d = \<lparr>cells = {q}, count = count (kn ! j) - k\<rparr>"
        using h by (simp add: derived_def)
      have "(kn @ [?d]) ! (j + 1) = ?d" using h by (simp add: nth_append)
      moreover have "(kn @ [?d]) ! 0 = ?E" using h by (simp add: nth_append)
      moreover have "\<forall>s \<in> set (kn @ [?d]). s = ?E \<or> count ?d \<le> count s"
      proof
        fix s assume "s \<in> set (kn @ [?d])"
        then consider "s \<in> set kn" | "s = ?d" by auto
        then show "s = ?E \<or> count ?d \<le> count s"
        proof cases
          case 1
          then have "s = ?E \<or> count (kn ! j) \<le> count s" using h by blast
          then show ?thesis unfolding d using k by auto
        next
          case 2
          then show ?thesis by simp
        qed
      qed
      ultimately have "?Inv (j + 1) (kn @ [?d])"
        using h d by simp
      then show False using add(6) by blast
    qed
  qed
  then show False using inv by blast
qed

lemma resolve_outer_diverges:
  assumes "0 < k"
  shows "resolve_outer 0 [\<lparr>cells = {}, count = k\<rparr>, \<lparr>cells = {q}, count = n\<rparr>] f = None"
proof -
  let ?kn = "[\<lparr>cells = {}, count = k\<rparr>, \<lparr>cells = {q}, count = n\<rparr>]"
  have "resolve_inner 0 1 ?kn f = None"
    using assms by (rule resolve_inner_diverges) auto
  then have "resolve_inner 0 0 ?kn f = None"
    by (subst resolve_inner.simps) simp
  then show ?thesis
    by (subst resolve_outer.simps) simp
qed

text \<open>C3 (as stated) fails: on a grid of height 1 and width 3, the probe of \<open>(0,0)\<close> with
  count 2 returns, and the probe of \<open>(0,1)\<close> with count 2 that follows does not: it leaves
  the sentences \<open>{} = 2\<close> and \<open>{(0,2)} = 2\<close>, from which the second loop derives
  \<open>{(0,2)} = 0\<close>, \<open>{(0,2)} = -2\<close>, and so on without end.\<close>

theorem observe_diverges_counterexample:
  "add_knowledge (init_ai 1 3) (0, 0) 2 =
     Some \<lparr>height = 1, width = 3, moves_made = {(0, 0)}, mines = {}, safes = {(0, 0)},
            knowledge = [\<lparr>cells = {(0, 1)}, count = 2\<rparr>]\<rparr> \<and>
   add_knowledge \<lparr>height = 1, width = 3, moves_made = {(0, 0)}, mines = {}, safes = {(0, 0)},
                   knowledge = [\<lparr>cells = {(0, 1)}, count = 2\<rparr>]\<rparr> (0, 1) 2 = None"
proof -
  let ?a = "\<lparr>height = 1, width = 3, moves_made = {(0, 0)}, mines = {}, safes = {(0, 0)},
             knowledge = [\<lparr>cells = {(0, 1)}, count = 2\<rparr>]\<rparr>"
  let ?a3 = "\<lparr>height = 1, width = 3, moves_made = {(0, 1), (0, 0)}, mines = {},
              safes = {(0, 1), (0, 0)},
              knowledge = [\<lparr>cells = {}, count = 2\<rparr>, \<lparr>cells = {(0, 2)}, count = 2\<rparr>]\<rparr>"
  have 1: "add_knowledge (init_ai 1 3) (0, 0) 2 = Some ?a"
    by code_simp
  have pre: "(let a1 = ?a\<lparr>moves_made := insert (0, 1) (moves_made ?a)\<rparr>;
                  a2 = mark_safe a1 (0, 1);
                  new = scan_neighbours a2 (0, 1) 2
              in a2\<lparr>knowledge := knowledge a2 @ [\<lparr>cells = fst new, count = snd new\<rparr>]\<rparr>) = ?a3"
    by code_simp
  have start: "add_knowledge ?a (0, 1) 2 = infer ?a3"
    unfolding add_knowledge_def using pre by (simp add: Let_def)
  have pass: "conclude_pass ?a3 = (?a3, False)"
    by code_simp
  have "resolve_outer 0 [\<lparr>cells = {}, count = 2\<rparr>, \<lparr>cells = {(0, 2)}, count = 2\<rparr>] False = None"
    by (rule resolve_outer_diverges) simp
  then have "infer ?a3 = None"
    by (subst infer.simps) (simp add: pass Let_def)
  then show ?thesis using 1 start by simp
qed

section \<open>Observations of a board\<close>

lemma observe_all_consistent:
  "consistent (game_mines g) a \<Longrightarrow> height a = game_height g \<Longrightarrow> width a = game_width g \<Longrightarrow>
   \<forall>c \<in> set cs. c \<notin> game_mines g \<Longrightarrow>
   \<exists>a'. observe_all g cs a = Some a' \<and> consistent (game_mines g) a'"
proof (induction cs arbitrary: a)
  case Nil
  then show ?case by simp
next
  case (Cons c cs)
  have "nearby_mines g c = int (card (neighbours (height a) (width a) c \<inter> game_mines g))"
    using Cons.prems(2,3) by (simp add: nearby_mines_eq)
  moreover have "c \<notin> game_mines g" using Cons.prems(4) by simp
  ultimately obtain a1 where a1: "add_knowledge a c (nearby_mines g c) = Some a1"
    "consistent (game_mines g) a1" "height a1 = height a" "width a1 = width a"
    using add_knowledge_consistent [OF Cons.prems(1)] by blast
  have "\<exists>a'. observe_all g cs a1 = Some a' \<and> consistent (game_mines g) a'"
    using a1 Cons.prems by (intro Cons.IH) simp_all
  then show ?case using a1(1) by simp
qed

lemma consistent_init: "consistent M (init_ai h w)"
  by (simp add: consistent_def init_ai_def)

text \<open>C3 (as amended): on a knowledge base that is consistent with a placement of mines, the
  observation of a cell that is not a mine, with the count that \<open>nearby_mines\<close> gives for that
  placement on the grid of the knowledge base, returns.\<close>

theorem observe_terminates:
  assumes "consistent M a" and "x \<notin> M"
    and "n = nearby_mines \<lparr>game_height = height a, game_width = width a, game_mines = M\<rparr> x"
  shows "\<exists>a'. add_knowledge a x n = Some a'"
proof -
  have "n = int (card (neighbours (height a) (width a) x \<inter> M))"
    using assms(3) by (simp add: nearby_mines_eq)
  then show ?thesis
    using add_knowledge_consistent [OF assms(1,2)] by blast
qed

theorem observe_terminates_witness:
  "consistent {(0, 2)} \<lparr>height = 1, width = 3, moves_made = {(0, 0)}, mines = {},
                          safes = {(0, 1), (0, 0)}, knowledge = [\<lparr>cells = {}, count = 0\<rparr>]\<rparr> \<and>
   (0, 1) \<notin> {(0, 2) :: cell} \<and>
   nearby_mines \<lparr>game_height = 1, game_width = 3, game_mines = {(0, 2)}\<rparr> (0, 1) = 1 \<and>
   (\<exists>a'. add_knowledge \<lparr>height = 1, width = 3, moves_made = {(0, 0)}, mines = {},
                          safes = {(0, 1), (0, 0)}, knowledge = [\<lparr>cells = {}, count = 0\<rparr>]\<rparr>
            (0, 1) 1 = Some a')"
proof -
  let ?a = "\<lparr>height = 1, width = 3, moves_made = {(0, 0)}, mines = {},
             safes = {(0, 1), (0, 0)}, knowledge = [\<lparr>cells = {}, count = 0\<rparr>]\<rparr>"
  have c: "consistent {(0, 2)} ?a"
    by (simp add: consistent_def true_of_def)
  have x: "(0, 1) \<notin> {(0, 2) :: cell}" by simp
  have n: "nearby_mines \<lparr>game_height = 1, game_width = 3, game_mines = {(0, 2)}\<rparr> (0, 1) = 1"
    by code_simp
  have n': "1 = nearby_mines \<lparr>game_height = height ?a, game_width = width ?a,
                               game_mines = {(0, 2)}\<rparr> (0, 1)"
    using n by simp
  show ?thesis
    using c x n observe_terminates [OF c x n'] by blast
qed

text \<open>C5 (as amended): starting from the empty knowledge base of a board, after the
  observation of any list of cells that are not mines, each with the count that
  \<open>nearby_mines\<close> gives on the board, no cell is both known safe and known mine, and every
  move made is known safe.\<close>

theorem observations_keep_invariants:
  assumes "\<forall>c \<in> set cs. c \<notin> game_mines g"
  shows "\<exists>a'. observe_all g cs (init_ai (game_height g) (game_width g)) = Some a' \<and>
              safes a' \<inter> mines a' = {} \<and> moves_made a' \<subseteq> safes a'"
proof -
  obtain a' where a': "observe_all g cs (init_ai (game_height g) (game_width g)) = Some a'"
    "consistent (game_mines g) a'"
    using observe_all_consistent [OF consistent_init _ _ assms, of "game_height g" "game_width g"]
    by (auto simp: init_ai_def)
  have "safes a' \<inter> mines a' = {}" "moves_made a' \<subseteq> safes a'"
    using a'(2) unfolding consistent_def by blast+
  then show ?thesis using a'(1) by blast
qed

theorem observations_keep_invariants_witness:
  "(0, 0) \<notin> game_mines \<lparr>game_height = 1, game_width = 3, game_mines = {(0, 2)}\<rparr> \<and>
   (0, 1) \<notin> game_mines \<lparr>game_height = 1, game_width = 3, game_mines = {(0, 2)}\<rparr> \<and>
   observe_all \<lparr>game_height = 1, game_width = 3, game_mines = {(0, 2)}\<rparr> [(0, 0), (0, 1)]
     (init_ai 1 3) =
     Some \<lparr>height = 1, width = 3, moves_made = {(0, 1), (0, 0)}, mines = {(0, 2)},
            safes = {(0, 1), (0, 0)},
            knowledge = [\<lparr>cells = {}, count = 0\<rparr>, \<lparr>cells = {}, count = 0\<rparr>]\<rparr> \<and>
   {(0, 1), (0, 0)} \<inter> {(0, 2) :: cell} = {} \<and>
   {(0, 1), (0, 0)} \<subseteq> {(0, 1), (0, 0) :: cell}"
proof -
  let ?g = "\<lparr>game_height = 1, game_width = 3, game_mines = {(0, 2)}\<rparr>"
  have h: "\<forall>c \<in> set [(0, 0), (0, 1)]. c \<notin> game_mines ?g" by simp
  have e: "observe_all ?g [(0, 0), (0, 1)] (init_ai 1 3) =
     Some \<lparr>height = 1, width = 3, moves_made = {(0, 1), (0, 0)}, mines = {(0, 2)},
            safes = {(0, 1), (0, 0)},
            knowledge = [\<lparr>cells = {}, count = 0\<rparr>, \<lparr>cells = {}, count = 0\<rparr>]\<rparr>"
    by code_simp
  show ?thesis
    using h e observations_keep_invariants [OF h] by simp
qed

text \<open>C5 (as stated) fails when a probed cell is a mine: on a grid of height 1 and width 2
  with a mine at \<open>(0,1)\<close>, the probe of \<open>(0,0)\<close> with its count 1 marks \<open>(0,1)\<close> as a mine;
  the probe of \<open>(0,1)\<close>, not probed before, with its count 0 then marks it safe as well.\<close>

theorem probed_mine_counterexample:
  "distinct [(0, 0), (0, 1) :: cell] \<and>
   nearby_mines \<lparr>game_height = 1, game_width = 2, game_mines = {(0, 1)}\<rparr> (0, 0) = 1 \<and>
   nearby_mines \<lparr>game_height = 1, game_width = 2, game_mines = {(0, 1)}\<rparr> (0, 1) = 0 \<and>
   observe_all \<lparr>game_height = 1, game_width = 2, game_mines = {(0, 1)}\<rparr> [(0, 0), (0, 1)]
     (init_ai 1 2) =
     Some \<lparr>height = 1, width = 2, moves_made = {(0, 1), (0, 0)}, mines = {(0, 1)},
            safes = {(0, 1), (0, 0)},
            knowledge = [\<lparr>cells = {}, count = 0\<rparr>, \<lparr>cells = {}, count = 0\<rparr>]\<rparr> \<and>
   {(0, 1), (0, 0)} \<inter> {(0, 1) :: cell} \<noteq> {}"
proof -
  let ?g = "\<lparr>game_height = 1, game_width = 2, game_mines = {(0, 1)}\<rparr>"
  have 1: "nearby_mines ?g (0, 0) = 1" by code_simp
  have 2: "nearby_mines ?g (0, 1) = 0" by code_simp
  have 3: "observe_all ?g [(0, 0), (0, 1)] (init_ai 1 2) =
     Some \<lparr>height = 1, width = 2, moves_made = {(0, 1), (0, 0)}, mines = {(0, 1)},
            safes = {(0, 1), (0, 0)},
            knowledge = [\<lparr>cells = {}, count = 0\<rparr>, \<lparr>cells = {}, count = 0\<rparr>]\<rparr>"
    by code_simp
  show ?thesis using 1 2 3 by simp
qed

end
